theory Spec2Isabelle
  imports Main "HOL-Library.Sublist" "HOL-Library.AList"
begin

section \<open>Data model\<close>

text \<open>
  \<^verbatim>\<open>chat_response.py\<close>: a \<^verbatim>\<open>ChatResponse\<close> carries the answer text and the number of
  completion tokens. Python's \<^verbatim>\<open>str\<close> is modelled as \<open>string\<close> and Python's unbounded
  \<^verbatim>\<open>int\<close> as \<open>int\<close>.
\<close>

record ChatResponse =
  "text" :: string
  token_count :: int

text \<open>
  The exceptions that the engine distinguishes or raises itself. The handlers of
  \<^verbatim>\<open>_chat_one_shot\<close> test, in this order, for \<^verbatim>\<open>openai.error.InvalidRequestError\<close>, for
  any other \<^verbatim>\<open>openai.error.OpenAIError\<close>, and for any other \<^verbatim>\<open>Exception\<close>.
\<close>

datatype exn =
    InvalidRequestError
  | OpenAIError
  | ValueError
  | KeyError
  | AttributeError
  | TypeError
  | JSONDecodeError
  | CapabilityError string

section \<open>Strings\<close>

abbreviation NL :: char where
  "NL \<equiv> CHR 0x0A"

text \<open>\<^verbatim>\<open>sep.join(xs)\<close>.\<close>

fun join :: "string \<Rightarrow> string list \<Rightarrow> string" where
  "join sep [] = []"
| "join sep [x] = x"
| "join sep (x # y # ys) = x @ sep @ join sep (y # ys)"

text \<open>
  \<^verbatim>\<open>s.split(sep)\<close> for a one-character separator: \<open>cur\<close> is the piece being read.
  The result always has one more piece than \<open>s\<close> has separators, so it is never empty.
\<close>

fun str_split_from :: "char \<Rightarrow> string \<Rightarrow> string \<Rightarrow> string list" where
  "str_split_from sep cur [] = [cur]"
| "str_split_from sep cur (c # cs) =
     (if c = sep then cur # str_split_from sep [] cs
      else str_split_from sep (cur @ [c]) cs)"

definition str_split :: "char \<Rightarrow> string \<Rightarrow> string list" where
  "str_split sep s = str_split_from sep [] s"

text \<open>
  \<^verbatim>\<open>s.strip()\<close> removes the white space at both ends. \<open>is_space\<close> is Python's
  \<^verbatim>\<open>str.isspace\<close> on the code points below 256, the range of \<open>char\<close>.
\<close>

definition is_space :: "char \<Rightarrow> bool" where
  "is_space c = (of_char c \<in> {9, 10, 11, 12, 13, 28, 29, 30, 31, 32, 133, 160 :: nat})"

definition str_strip :: "string \<Rightarrow> string" where
  "str_strip s = rev (dropWhile is_space (rev (dropWhile is_space s)))"

text \<open>
  The slice \<^verbatim>\<open>xs[start:]\<close>: a negative start counts from the end, and both ends are
  clamped to the list (\<open>nat\<close> of a negative number is \<open>0\<close>, \<open>drop\<close> beyond the end is
  \<open>[]\<close>).
\<close>

definition slice_from :: "int \<Rightarrow> 'a list \<Rightarrow> 'a list" where
  "slice_from start xs =
     (if start < 0 then drop (nat (int (length xs) + start)) xs else drop (nat start) xs)"

section \<open>Text chunker\<close>

text \<open>
  \<^verbatim>\<open>TextChunkingOneShot.chunk_paragraphs\<close>. The tokenizer comes from \<^verbatim>\<open>tiktoken\<close>, outside
  the repository, and only the length of an encoding is used: it is the parameter
  \<open>count\<close>, standing for \<^verbatim>\<open>len(self.encoder.encode(p))\<close>. \<open>chunk_size\<close> is the
  attribute \<^verbatim>\<open>self.chunk_size\<close> and \<open>overlap\<close> the Python integer passed by the caller.

  \<open>retain\<close> is the statement after the emission of a chunk (lines 49 and 50):
  \<^verbatim>\<open>if overlap < len(temp_paragraphs): temp_paragraphs = temp_paragraphs[-overlap:]\<close>.
\<close>

definition retain :: "int \<Rightarrow> string list \<Rightarrow> string list" where
  "retain overlap temp_paragraphs =
     (if overlap < int (length temp_paragraphs) then slice_from (- overlap) temp_paragraphs
      else temp_paragraphs)"

text \<open>
  The \<^verbatim>\<open>for paragraph in paragraphs\<close> loop, with the two lists \<^verbatim>\<open>result\<close> and
  \<^verbatim>\<open>temp_paragraphs\<close> it updates.
\<close>

fun chunk_loop ::
  "(string \<Rightarrow> nat) \<Rightarrow> int \<Rightarrow> int \<Rightarrow> string list \<Rightarrow> string list \<Rightarrow> string list
     \<Rightarrow> string list \<times> string list" where
  "chunk_loop count chunk_size overlap [] result temp_paragraphs = (result, temp_paragraphs)"
| "chunk_loop count chunk_size overlap (paragraph # paragraphs) result temp_paragraphs =
     (let tokens = count paragraph in
      if int (tokens + sum_list (map count temp_paragraphs)) > chunk_size
      then chunk_loop count chunk_size overlap paragraphs
             (result @ [str_strip (join [NL] temp_paragraphs)])
             (retain overlap temp_paragraphs @ [paragraph])
      else chunk_loop count chunk_size overlap paragraphs
             result (temp_paragraphs @ [paragraph]))"

definition chunk_paragraphs :: "(string \<Rightarrow> nat) \<Rightarrow> int \<Rightarrow> string \<Rightarrow> int \<Rightarrow> string list" where
  "chunk_paragraphs count chunk_size txt overlap =
     (case chunk_loop count chunk_size overlap (str_split NL txt) [] [] of
        (result, temp_paragraphs) \<Rightarrow>
          if temp_paragraphs \<noteq> [] then result @ [str_strip (join [NL] temp_paragraphs)]
          else result)"

text \<open>
  The same loop, recording the paragraph lists themselves instead of their trimmed joins:
  \<open>chunk_buffers\<close> lists, for every chunk that \<open>chunk_paragraphs\<close> returns, the
  paragraphs \<^verbatim>\<open>temp_paragraphs\<close> held when the chunk was emitted.
\<close>

fun buffer_loop ::
  "(string \<Rightarrow> nat) \<Rightarrow> int \<Rightarrow> int \<Rightarrow> string list \<Rightarrow> string list list \<Rightarrow> string list
     \<Rightarrow> string list list \<times> string list" where
  "buffer_loop count chunk_size overlap [] buffers temp_paragraphs = (buffers, temp_paragraphs)"
| "buffer_loop count chunk_size overlap (paragraph # paragraphs) buffers temp_paragraphs =
     (let tokens = count paragraph in
      if int (tokens + sum_list (map count temp_paragraphs)) > chunk_size
      then buffer_loop count chunk_size overlap paragraphs
             (buffers @ [temp_paragraphs])
             (retain overlap temp_paragraphs @ [paragraph])
      else buffer_loop count chunk_size overlap paragraphs
             buffers (temp_paragraphs @ [paragraph]))"

definition chunk_buffers :: "(string \<Rightarrow> nat) \<Rightarrow> int \<Rightarrow> string \<Rightarrow> int \<Rightarrow> string list list" where
  "chunk_buffers count chunk_size txt overlap =
     (case buffer_loop count chunk_size overlap (str_split NL txt) [] [] of
        (buffers, temp_paragraphs) \<Rightarrow>
          if temp_paragraphs \<noteq> [] then buffers @ [temp_paragraphs] else buffers)"

text \<open>
  The chunk emitted for a buffer (lines 46 and 59): its paragraphs joined with newlines,
  then trimmed.
\<close>

definition emit :: "string list \<Rightarrow> string" where
  "emit temp_paragraphs = str_strip (join [NL] temp_paragraphs)"

text \<open>
  Rejoining chunks, as the specification words it: from every paragraph list after the
  first, drop the paragraphs that the overlap of \<open>k\<close> paragraphs duplicates, which are
  its first \<open>min k (length previous)\<close> ones, \<open>previous\<close> being the list before it.
\<close>

fun drop_overlap :: "nat \<Rightarrow> 'a list \<Rightarrow> 'a list list \<Rightarrow> 'a list list" where
  "drop_overlap k previous [] = []"
| "drop_overlap k previous (b # bs) = drop (min k (length previous)) b # drop_overlap k b bs"

text \<open>
  The invariant of the loop on the buffers emitted so far, followed by the current one:
  each is empty, or within the limit by the sum of its paragraphs' token counts, or is
  made of what \<open>retain\<close> kept of the buffer before it and one more paragraph.
\<close>

definition chain_ok :: "(string \<Rightarrow> nat) \<Rightarrow> int \<Rightarrow> int \<Rightarrow> string list list \<Rightarrow> bool" where
  "chain_ok count chunk_size overlap bs =
     (\<forall>i<length bs. bs ! i = [] \<or> int (sum_list (map count (bs ! i))) \<le> chunk_size
        \<or> (0 < i \<and> bs ! i = retain overlap (bs ! (i - 1)) @ [last (bs ! i)]))"

text \<open>
  Two tokenizers to run the chunker on: one token for every character, and one token for
  every character that is not white space (so that joining paragraphs with newlines
  adds no token).
\<close>

definition char_tokens :: "string \<Rightarrow> nat" where
  "char_tokens p = length p"

definition visible_tokens :: "string \<Rightarrow> nat" where
  "visible_tokens p = length (filter (\<lambda>c. \<not> is_space c) p)"

section \<open>Result aggregator\<close>






section \<open>Capability registry\<close>

text \<open>
  Python values of the shapes that JSON has: what \<^verbatim>\<open>json.loads\<close> returns, what a
  capability returns, and what the content of a message holds. A string is \<open>JStr\<close>;
  a JSON object is a Python dictionary, the only value that \<^verbatim>\<open>**function_args\<close> can
  unpack.
\<close>

datatype json =
    JNull
  | JBool bool
  | JNum int
  | JStr string
  | JArr "json list"
  | JObj "(string \<times> json) list"

text \<open>
  \<^verbatim>\<open>json_schema_dectorator.py\<close>: the schema that the decorator attaches to a function.
  Its name is the function's own name \<^verbatim>\<open>func.__name__\<close>; a parameter is described by
  its type and description, with the defaults of \<^verbatim>\<open>info.get\<close>; the key
  \<^verbatim>\<open>required\<close> is present only when some parameter is required.
\<close>

record schema =
  s_name :: string
  s_description :: string
  s_parameters :: "(string \<times> string \<times> string) list"
  s_required :: "string list option"

record param_info =
  p_required :: bool
  p_type :: "string option"
  p_description :: "string option"

definition json_schema :: "string \<Rightarrow> (string \<times> param_info) list \<Rightarrow> string \<Rightarrow> schema" where
  "json_schema description params func_name =
     (let required = map fst (filter (\<lambda>(param, info). p_required info) params);
          properties = map (\<lambda>(param, info).
              (param,
               (case p_type info of None \<Rightarrow> ''string'' | Some t \<Rightarrow> t),
               (case p_description info of None \<Rightarrow> [] | Some d \<Rightarrow> d))) params
      in \<lparr>s_name = func_name, s_description = description, s_parameters = properties,
          s_required = (if required \<noteq> [] then Some required else None)\<rparr>)"

text \<open>
  An object of the tool chest: its identity (what Python's \<^verbatim>\<open>is\<close> compares) and its
  attributes by name, in the order of \<^verbatim>\<open>inspect.getmembers\<close>. An attribute is a bound
  method, with the schema attached to it if any and the result of awaiting a call of it
  on keyword arguments (the value it returns, or the exception it raises), or it is not
  callable. \<open>decorated\<close> is the attribute that a class body defines by
  \<^verbatim>\<open>@json_schema(description, params) async def func_name(self, ...)\<close>.
\<close>

datatype attr =
    Method "schema option" "(string \<times> json) list \<Rightarrow> exn + json"
  | Data

datatype pyobject = PyObject (ident: nat) (attrs: "(string \<times> attr) list")

definition decorated ::
  "string \<Rightarrow> (string \<times> param_info) list \<Rightarrow> string \<Rightarrow> ((string \<times> json) list \<Rightarrow> exn + json)
     \<Rightarrow> string \<times> attr" where
  "decorated description params func_name body =
     (func_name, Method (Some (json_schema description params func_name)) body)"

text \<open>
  The tool chest is a Python dictionary from owner names to objects: an association list
  in insertion order, read with \<open>map_of\<close> and written with \<open>AList.update\<close> (a key
  that is present keeps its place, a new key goes to the end).
\<close>

type_synonym tool_chest = "(string \<times> pyobject) list"

text \<open>
  \<^verbatim>\<open>__functions\<close>, lines 144 to 150: for every owner, in the order of the dictionary,
  and every method of it that has a schema, a copy of the schema renamed to
  \<^verbatim>\<open>f"{src_name}-{schema['name']}"\<close>.
\<close>

definition owner_schemas :: "string \<Rightarrow> pyobject \<Rightarrow> schema list" where
  "owner_schemas src_name obj =
     concat (map (\<lambda>(name, a).
        case a of
          Method (Some sch) body \<Rightarrow> [sch\<lparr>s_name := src_name @ ''-'' @ s_name sch\<rparr>]
        | _ \<Rightarrow> []) (attrs obj))"

definition collect_schemas :: "tool_chest \<Rightarrow> schema list" where
  "collect_schemas chest = concat (map (\<lambda>(src_name, obj). owner_schemas src_name obj) chest)"

text \<open>
  \<^verbatim>\<open>s.split(sep, maxsplit)\<close> for a one-character separator: at most \<open>maxsplit\<close>
  splits are made, from the left, and the rest of the string is the last piece.
\<close>

fun str_split_max_from :: "char \<Rightarrow> nat \<Rightarrow> string \<Rightarrow> string \<Rightarrow> string list" where
  "str_split_max_from sep n cur [] = [cur]"
| "str_split_max_from sep n cur (c # cs) =
     (if c = sep \<and> 0 < n then cur # str_split_max_from sep (n - 1) [] cs
      else str_split_max_from sep n (cur @ [c]) cs)"

definition str_split_max :: "char \<Rightarrow> nat \<Rightarrow> string \<Rightarrow> string list" where
  "str_split_max sep n s = str_split_max_from sep n [] s"

text \<open>
  \<^verbatim>\<open>__call_function\<close>. Unpacking the pieces of \<^verbatim>\<open>function_id.split("-", 2)\<close> into two
  names raises \<^verbatim>\<open>ValueError\<close> unless there are exactly two; a missing owner raises
  \<^verbatim>\<open>KeyError\<close>, a missing attribute \<^verbatim>\<open>AttributeError\<close>; calling what is not callable,
  or unpacking with \<^verbatim>\<open>**\<close> what is not a dictionary, raises \<^verbatim>\<open>TypeError\<close>. The
  failure of the callable itself is returned as it is.
\<close>

definition call_function :: "tool_chest \<Rightarrow> string \<Rightarrow> json \<Rightarrow> exn + json" where
  "call_function chest function_id function_args =
     (case str_split_max (CHR ''-'') 2 function_id of
        [toolbelt, function_name] \<Rightarrow>
          (case map_of chest toolbelt of
             None \<Rightarrow> Inl KeyError
           | Some src_obj \<Rightarrow>
               (case map_of (attrs src_obj) function_name of
                  None \<Rightarrow> Inl AttributeError
                | Some Data \<Rightarrow> Inl TypeError
                | Some (Method sch function_to_call) \<Rightarrow>
                    (case function_args of
                       JObj kwargs \<Rightarrow> function_to_call kwargs
                     | _ \<Rightarrow> Inl TypeError)))
      | _ \<Rightarrow> Inl ValueError)"

text \<open>
  What \<^verbatim>\<open>__call_function\<close> invokes on these arguments: the owner, the name of the method
  and the keyword arguments of the call \<^verbatim>\<open>function_to_call(**function_args)\<close> of line
  159 when that call is reached, and nothing when an earlier step raises.
\<close>

definition call_target ::
  "tool_chest \<Rightarrow> string \<Rightarrow> json \<Rightarrow> (string \<times> string \<times> (string \<times> json) list) list" where
  "call_target chest function_id function_args =
     (case str_split_max (CHR ''-'') 2 function_id of
        [toolbelt, function_name] \<Rightarrow>
          (case map_of chest toolbelt of
             None \<Rightarrow> []
           | Some src_obj \<Rightarrow>
               (case map_of (attrs src_obj) function_name of
                  None \<Rightarrow> []
                | Some Data \<Rightarrow> []
                | Some (Method sch function_to_call) \<Rightarrow>
                    (case function_args of
                       JObj kwargs \<Rightarrow> [(toolbelt, function_name, kwargs)]
                     | _ \<Rightarrow> [])))
      | _ \<Rightarrow> [])"

section \<open>The engine\<close>

text \<open>
  \<^verbatim>\<open>ToolUseOneShot\<close>. The dictionaries that callers and engines share live in a heap, a
  list of dictionaries addressed by position, and the attribute \<^verbatim>\<open>tool_chest\<close> of an
  engine is an address in it: the engine and its caller hold the same dictionary.
  \<open>self_obj\<close> is the instance as an object of the tool chest, with the methods of its
  class (\<^verbatim>\<open>ToolUseOneShot\<close> or a subclass). The temperature, a float handed to the
  endpoint unchanged, and the semaphore object are left out of the record.
\<close>

type_synonym heap = "tool_chest list"

record engine =
  self_obj :: pyobject
  model_name :: string
  max_delay :: int
  concurrency_limit :: int
  tool_chest :: nat
  prompt :: "string option"
  schemas :: "schema list option"

text \<open>
  The keyword arguments of the constructor; \<open>None\<close> is an absent key. \<open>kw_tools\<close>
  is the address of the caller's dictionary.
\<close>

record init_kwargs =
  kw_model_name :: "string option"
  kw_max_delay :: "int option"
  kw_concurrency_limit :: "int option"
  kw_tools :: "nat option"
  kw_prompt :: "string option"

text \<open>
  \<^verbatim>\<open>__init__\<close>. \<^verbatim>\<open>asyncio.Semaphore(value)\<close> raises \<^verbatim>\<open>ValueError\<close> for a negative
  value, before the tool chest is touched. \<^verbatim>\<open>kwargs.get("tools", {})\<close> is the caller's
  dictionary itself when the key is present and a new empty dictionary otherwise;
  \<^verbatim>\<open>self.tool_chest['self'] = self\<close> then writes into that dictionary.
\<close>

definition init :: "pyobject \<Rightarrow> init_kwargs \<Rightarrow> heap \<Rightarrow> exn + engine \<times> heap" where
  "init self kwargs h =
     (let limit = (case kw_concurrency_limit kwargs of None \<Rightarrow> 3 | Some n \<Rightarrow> n) in
      if limit < 0 then Inl ValueError
      else
        (case (case kw_tools kwargs of Some a \<Rightarrow> (a, h) | None \<Rightarrow> (length h, h @ [[]])) of
           (chest, h1) \<Rightarrow>
             Inr (\<lparr>self_obj = self,
                   model_name = (case kw_model_name kwargs of None \<Rightarrow> ''gpt-3.5-turbo-16k'' | Some m \<Rightarrow> m),
                   max_delay = (case kw_max_delay kwargs of None \<Rightarrow> 10 | Some d \<Rightarrow> d),
                   concurrency_limit = limit,
                   tool_chest = chest,
                   prompt = kw_prompt kwargs,
                   schemas = None\<rparr>,
                  h1[chest := AList.update ''self'' self (h1 ! chest)])))"

text \<open>
  \<^verbatim>\<open>__functions\<close>: the schemas are collected at the first call and cached in
  \<^verbatim>\<open>self.schemas\<close>.
\<close>

definition functions_list :: "tool_chest \<Rightarrow> engine \<Rightarrow> schema list \<times> engine" where
  "functions_list chest e =
     (case schemas e of
        Some cached \<Rightarrow> (cached, e)
      | None \<Rightarrow> (collect_schemas chest, e\<lparr>schemas := Some (collect_schemas chest)\<rparr>))"

section \<open>Conversations and the completion endpoint\<close>

text \<open>
  A message of the conversation: a dictionary with a role and a content (a string, or
  whatever value was stored there), and for some a name or a function call (the name of the requested capability and its arguments as a
  JSON text). The endpoint answers a request with a message and the number of completion
  tokens (\<^verbatim>\<open>response["choices"][0]["message"]\<close> and
  \<^verbatim>\<open>response['usage']['completion_tokens']\<close>), or raises.
\<close>

datatype role = System | User | Assistant | Function

record fcall =
  fc_name :: string
  fc_arguments :: string

record message =
  m_role :: role
  m_content :: "json option"
  m_name :: "string option"
  m_function_call :: "fcall option"

record response =
  r_message :: message
  r_completion_tokens :: int

text \<open>
  The keyword arguments \<^verbatim>\<open>opts\<close> of \<^verbatim>\<open>openai.ChatCompletion.acreate\<close>; the key
  \<^verbatim>\<open>functions\<close> is present only when there are schemas.
\<close>

record request =
  o_model :: string
  o_messages :: "message list"
  o_functions :: "schema list option"

text \<open>
  What lies outside the repository: the endpoint, whose reply may depend on the request
  and on how many calls this logical request made before, and \<^verbatim>\<open>json.loads\<close>.
\<close>

record world =
  endpoint :: "nat \<Rightarrow> request \<Rightarrow> exn + response"
  json_loads :: "string \<Rightarrow> exn + json"

text \<open>\<^verbatim>\<open>__construct_message_array\<close>.\<close>

definition construct_message_array ::
  "message list option \<Rightarrow> string option \<Rightarrow> string \<Rightarrow> exn + message list" where
  "construct_message_array additional_messages user_message sys_prompt =
     (let sys = \<lparr>m_role = System, m_content = Some (JStr sys_prompt), m_name = None,
                  m_function_call = None\<rparr>
      in case user_message of
           None \<Rightarrow>
             (case additional_messages of
                None \<Rightarrow> Inl ValueError
              | Some extra \<Rightarrow> Inr ([sys] @ extra))
         | Some um \<Rightarrow>
             (let usr = \<lparr>m_role = User, m_content = Some (JStr um), m_name = None,
                          m_function_call = None\<rparr>
              in case additional_messages of
                   None \<Rightarrow> Inr [sys, usr]
                 | Some extra \<Rightarrow> Inr ([sys] @ extra @ [usr])))"

section \<open>The function invocation loop\<close>

text \<open>
  The variables of the \<^verbatim>\<open>while True\<close> loop of \<^verbatim>\<open>_chat_one_shot\<close>: the list
  \<^verbatim>\<open>messages\<close>, which is also \<^verbatim>\<open>opts["messages"]\<close>, so that what the loop appends is
  part of the next request, and \<^verbatim>\<open>delay\<close>. Three more fields record what the loop
  does: the number of calls of the endpoint, the durations passed to
  \<^verbatim>\<open>asyncio.sleep\<close>, and the capabilities that \<^verbatim>\<open>__call_function\<close> invoked, each with
  its owner, its name and its keyword arguments.
\<close>

record loop_state =
  messages :: "message list"
  delay :: int
  calls :: nat
  sleeps :: "int list"
  invoked :: "(string \<times> string \<times> (string \<times> json) list) list"

text \<open>
  \<^verbatim>\<open>__exponential_backoff(delay)\<close> sleeps for \<^verbatim>\<open>min(2 * delay, self.max_delay)\<close>
  seconds: this is the duration.
\<close>

definition exponential_backoff :: "int \<Rightarrow> int \<Rightarrow> int" where
  "exponential_backoff maximum d = min (2 * d) maximum"

text \<open>
  The body of the \<^verbatim>\<open>try\<close> (lines 198 to 205): it raises, or falls through to the next
  iteration after a tool call, or returns the answer. The function message holds what the
  capability returned, as it is (line 203); \<^verbatim>\<open>response_message["content"].strip()\<close>
  raises \<^verbatim>\<open>AttributeError\<close> when the content is not a string.
\<close>

datatype flow = Again | Done ChatResponse

definition attempt ::
  "world \<Rightarrow> tool_chest \<Rightarrow> request \<Rightarrow> loop_state \<Rightarrow> (exn + flow) \<times> loop_state" where
  "attempt w chest opts st =
     (let st1 = st\<lparr>calls := Suc (calls st)\<rparr> in
      case endpoint w (calls st) (opts\<lparr>o_messages := messages st\<rparr>) of
        Inl e \<Rightarrow> (Inl e, st1)
      | Inr resp \<Rightarrow>
          (let response_message = r_message resp in
           case m_function_call response_message of
             Some fc \<Rightarrow>
               (case json_loads w (fc_arguments fc) of
                  Inl e \<Rightarrow> (Inl e, st1)
                | Inr function_args \<Rightarrow>
                    (let st2 = st1\<lparr>invoked := invoked st1 @
                                 call_target chest (fc_name fc) function_args\<rparr> in
                     case call_function chest (fc_name fc) function_args of
                       Inl e \<Rightarrow> (Inl e, st2)
                     | Inr function_response \<Rightarrow>
                         (Inr Again,
                          st2\<lparr>messages := messages st2 @
                            [response_message,
                             \<lparr>m_role = Function, m_content = Some function_response,
                              m_name = Some (fc_name fc), m_function_call = None\<rparr>]\<rparr>)))
           | None \<Rightarrow>
               (case m_content response_message of
                  Some (JStr content) \<Rightarrow>
                    (Inr (Done \<lparr>text = str_strip content,
                                token_count = r_completion_tokens resp\<rparr>), st1)
                | _ \<Rightarrow> (Inl AttributeError, st1))))"

text \<open>
  The \<^verbatim>\<open>except\<close> clauses, in their order: an \<^verbatim>\<open>InvalidRequestError\<close> is raised again,
  any other \<^verbatim>\<open>OpenAIError\<close> leads to the backoff and the next iteration, any other
  exception is raised again.
\<close>

datatype handling = Propagate | Retry

fun handler :: "exn \<Rightarrow> handling" where
  "handler InvalidRequestError = Propagate"
| "handler OpenAIError = Retry"
| "handler e = Propagate"

text \<open>
  The loop. It has no bound in the source; here \<open>fuel\<close> bounds the number of
  iterations, and \<open>None\<close> says that the loop has not returned within them.
\<close>

fun chat_loop ::
  "world \<Rightarrow> tool_chest \<Rightarrow> int \<Rightarrow> request \<Rightarrow> nat \<Rightarrow> loop_state
     \<Rightarrow> ((exn + ChatResponse) \<times> loop_state) option" where
  "chat_loop w chest maximum opts 0 st = None"
| "chat_loop w chest maximum opts (Suc fuel) st =
     (case attempt w chest opts st of
        (Inr (Done answer), st') \<Rightarrow> Some (Inr answer, st')
      | (Inr Again, st') \<Rightarrow> chat_loop w chest maximum opts fuel st'
      | (Inl e, st') \<Rightarrow>
          (case handler e of
             Propagate \<Rightarrow> Some (Inl e, st')
           | Retry \<Rightarrow>
               chat_loop w chest maximum opts fuel
                 (st'\<lparr>sleeps := sleeps st' @ [exponential_backoff maximum (delay st')],
                      delay := delay st' * 2\<rparr>)))"

text \<open>
  The state in which the loop is entered: \<^verbatim>\<open>delay = 1\<close> (line 194), nothing done yet.
\<close>

definition initial_state :: "message list \<Rightarrow> loop_state" where
  "initial_state msgs = \<lparr>messages = msgs, delay = 1, calls = 0, sleeps = [], invoked = []\<rparr>"

text \<open>
  \<^verbatim>\<open>_chat_one_shot\<close>, for a request that runs alone: the semaphore then has
  \<^verbatim>\<open>concurrency_limit\<close> permits, and with none of them \<^verbatim>\<open>async with self.semaphore\<close>
  never proceeds. An absent keyword is \<open>None\<close>. The result is what the caller sees, the
  outcome and the engine with its cache of schemas.
\<close>

record chat_kwargs =
  ck_model_name :: "string option"
  ck_prompt :: "string option"
  ck_additional_messages :: "message list option"
  ck_user_message :: "string option"
  ck_messages :: "message list option"

definition chat_one_shot ::
  "world \<Rightarrow> tool_chest \<Rightarrow> engine \<Rightarrow> nat \<Rightarrow> chat_kwargs \<Rightarrow> ((exn + ChatResponse) \<times> engine) option" where
  "chat_one_shot w chest e fuel kwargs =
     (let model = (case ck_model_name kwargs of None \<Rightarrow> model_name e | Some m \<Rightarrow> m);
          sys_prompt = (case ck_prompt kwargs of None \<Rightarrow> prompt e | Some p \<Rightarrow> Some p);
          built = (case ck_messages kwargs of
                     Some ms \<Rightarrow> Inr ms
                   | None \<Rightarrow>
                       (case sys_prompt of
                          None \<Rightarrow> Inl ValueError
                        | Some p \<Rightarrow>
                            construct_message_array (ck_additional_messages kwargs)
                              (ck_user_message kwargs) p))
      in case built of
           Inl err \<Rightarrow> Some (Inl err, e)
         | Inr msgs \<Rightarrow>
             (case functions_list chest e of
                (fs, e') \<Rightarrow>
                  (let opts = \<lparr>o_model = model, o_messages = msgs,
                               o_functions = (if fs \<noteq> [] then Some fs else None)\<rparr>
                   in if concurrency_limit e' < 1 then None
                      else map_option (\<lambda>(outcome, st). (outcome, e'))
                             (chat_loop w chest (max_delay e') opts fuel
                                (initial_state msgs)))))"

section \<open>Task runner\<close>

text \<open>
  \<^verbatim>\<open>asyncio.gather(*tasks, return_exceptions=True)\<close>, from the standard library: the
  result of each task, its value or the exception it raised, is put at the position of
  the task among the arguments, in whatever order the tasks complete, and the list is
  returned once every position is filled. \<open>order\<close> lists the tasks by position in the
  order in which they complete; \<open>None\<close> says that \<^verbatim>\<open>gather\<close> is still waiting.
\<close>

fun settle :: "'a list \<Rightarrow> nat list \<Rightarrow> 'a option list \<Rightarrow> 'a option list" where
  "settle outcomes [] slots = slots"
| "settle outcomes (i # order) slots =
     settle outcomes order
       (if i < length outcomes then slots[i := Some (outcomes ! i)] else slots)"

definition gather :: "'a list \<Rightarrow> nat list \<Rightarrow> 'a list option" where
  "gather outcomes order = those (settle outcomes order (replicate (length outcomes) None))"

text \<open>
  \<^verbatim>\<open>ToolUseOneShot.arun\<close>. An element of the input is a string or a \<^verbatim>\<open>ChatResponse\<close>,
  of which the text is taken. \<open>chat i s\<close> is the outcome of the coroutine
  \<^verbatim>\<open>self._chat_one_shot(user_message=s)\<close> created for position \<open>i\<close>, once it has
  settled. On a list, the outcomes are gathered; on a single element the outcome is
  awaited, so that an exception propagates to the caller.
\<close>

datatype input_item = Str string | Resp ChatResponse

datatype input_data = Single input_item | Batch "input_item list"

datatype arun_result = One ChatResponse | Many "(exn + ChatResponse) list"

fun input_text :: "input_item \<Rightarrow> string" where
  "input_text (Str s) = s"
| "input_text (Resp r) = text r"

definition arun ::
  "(nat \<Rightarrow> string \<Rightarrow> exn + ChatResponse) \<Rightarrow> nat list \<Rightarrow> input_data \<Rightarrow> (exn + arun_result) option" where
  "arun chat order input =
     (case input of
        Batch items \<Rightarrow>
          map_option (\<lambda>results. Inr (Many results))
            (gather (map (\<lambda>(i, input_text_i). chat i (input_text input_text_i))
                       (enumerate 0 items)) order)
      | Single item \<Rightarrow>
          (case chat 0 (input_text item) of
             Inl e \<Rightarrow> Some (Inl e)
           | Inr r \<Rightarrow> Some (Inr (One r))))"

section \<open>Scenarios\<close>

text \<open>
  An endpoint that answers the calls of a request from a list, in order, and fails
  transiently afterwards; its two kinds of replies, a plain content and a tool call;
  a decoder that knows the empty JSON object only.
\<close>

definition scripted :: "(exn + response) list \<Rightarrow> nat \<Rightarrow> request \<Rightarrow> exn + response" where
  "scripted replies n req = (if n < length replies then replies ! n else Inl OpenAIError)"

definition answer :: "string \<Rightarrow> int \<Rightarrow> exn + response" where
  "answer content tokens =
     Inr \<lparr>r_message = \<lparr>m_role = Assistant, m_content = Some (JStr content), m_name = None,
                        m_function_call = None\<rparr>,
          r_completion_tokens = tokens\<rparr>"

definition tool_call :: "string \<Rightarrow> string \<Rightarrow> int \<Rightarrow> exn + response" where
  "tool_call function_id arguments tokens =
     Inr \<lparr>r_message = \<lparr>m_role = Assistant, m_content = None, m_name = None,
                        m_function_call =
                          Some \<lparr>fc_name = function_id, fc_arguments = arguments\<rparr>\<rparr>,
          r_completion_tokens = tokens\<rparr>"

definition loads_empty_object :: "string \<Rightarrow> exn + json" where
  "loads_empty_object s = (if s = ''{}'' then Inr (JObj []) else Inl JSONDecodeError)"

definition plain_opts :: request where
  "plain_opts = \<lparr>o_model = ''gpt-3.5-turbo-16k'', o_messages = [], o_functions = None\<rparr>"

text \<open>
  A tool chest with one owner, whose class defines one capability with the decorator, and
  the keyword arguments of a constructor that is given the dictionary at address \<open>0\<close>.
  The capability returns a string.
\<close>

definition echo_tools :: tool_chest where
  "echo_tools =
     [(''tools'', PyObject 1 [decorated ''Echo'' [] ''echo'' (\<lambda>kwargs. Inr (JStr ''pong''))])]"

text \<open>The same with a capability that returns a number.\<close>

definition count_tools :: tool_chest where
  "count_tools =
     [(''tools'', PyObject 1 [decorated ''Count'' [] ''count'' (\<lambda>kwargs. Inr (JNum 42))])]"

definition shared_tools_kwargs :: init_kwargs where
  "shared_tools_kwargs =
     \<lparr>kw_model_name = None, kw_max_delay = None, kw_concurrency_limit = None,
      kw_tools = Some 0, kw_prompt = None\<rparr>"

text \<open>
  The engine that the constructor builds for the object \<open>self\<close> from keyword arguments
  that give nothing but the tool chest at address \<open>a\<close>.
\<close>

definition default_engine :: "pyobject \<Rightarrow> nat \<Rightarrow> engine" where
  "default_engine self a =
     \<lparr>self_obj = self, model_name = ''gpt-3.5-turbo-16k'', max_delay = 10,
      concurrency_limit = 3, tool_chest = a, prompt = None, schemas = None\<rparr>"

text \<open>
  The outcomes of three coroutines: the one whose message is \<^verbatim>\<open>"b"\<close> fails, the others
  answer with their message.
\<close>

definition fails_on_b :: "nat \<Rightarrow> string \<Rightarrow> exn + ChatResponse" where
  "fails_on_b i s =
     (if s = ''b'' then Inl InvalidRequestError else Inr \<lparr>text = s, token_count = int i\<rparr>)"

section \<open>Properties of the text chunker\<close>

subsection \<open>Chunks and buffers\<close>

lemma str_split_from_nonempty: "str_split_from sep cur s \<noteq> []"
  by (induction s arbitrary: cur) simp_all

lemma chunk_loop_buffers:
  "chunk_loop count chunk_size overlap ps (map emit bs) temp =
     (case buffer_loop count chunk_size overlap ps bs temp of
        (bs', temp') \<Rightarrow> (map emit bs', temp'))"
proof (induction ps arbitrary: bs temp)
  case Nil
  show ?case by simp
next
  case (Cons p ps)
  show ?case
    using Cons.IH [of "bs @ [temp]" "retain overlap temp @ [p]"] Cons.IH [of bs "temp @ [p]"]
    by (simp add: emit_def Let_def)
qed

lemma chunk_paragraphs_buffers:
  "chunk_paragraphs count chunk_size txt overlap =
     map emit (chunk_buffers count chunk_size txt overlap)"
  using chunk_loop_buffers [of count chunk_size overlap "str_split NL txt" "[]" "[]"]
  by (simp add: chunk_paragraphs_def chunk_buffers_def emit_def split: prod.splits)

lemma buffer_loop_temp_nonempty:
  "buffer_loop count chunk_size overlap ps bs temp = (bs', temp') \<Longrightarrow> ps \<noteq> [] \<or> temp \<noteq> []
     \<Longrightarrow> temp' \<noteq> []"
proof (induction ps arbitrary: bs temp)
  case Nil
  then show ?case by simp
next
  case (Cons p ps)
  show ?case
  proof (cases "int (count p + sum_list (map count temp)) > chunk_size")
    case True
    with Cons.prems have "buffer_loop count chunk_size overlap ps (bs @ [temp]) (retain overlap temp @ [p]) = (bs', temp')"
      by (simp add: Let_def)
    then show ?thesis using Cons.IH by blast
  next
    case False
    with Cons.prems have "buffer_loop count chunk_size overlap ps bs (temp @ [p]) = (bs', temp')"
      by (simp add: Let_def)
    then show ?thesis using Cons.IH by blast
  qed
qed

lemma retain_suffix: "suffix (retain overlap temp) temp"
  by (simp add: retain_def slice_from_def suffix_drop)

lemma retain_positive:
  "0 < overlap \<Longrightarrow> retain overlap temp = drop (length temp - min (nat overlap) (length temp)) temp"
  by (auto simp: retain_def slice_from_def min_def nat_diff_distrib' intro: arg_cong [where f = "\<lambda>n. drop n temp"])

lemma retain_zero: "retain 0 temp = temp"
  by (simp add: retain_def slice_from_def)

subsection \<open>Rejoining the buffers\<close>

lemma drop_overlap_snoc:
  "drop_overlap k previous (bs @ [b]) =
     drop_overlap k previous bs @ [drop (min k (length (last (previous # bs)))) b]"
  by (induction bs arbitrary: previous) simp_all

lemma length_retain_positive:
  "0 < overlap \<Longrightarrow> length (retain overlap temp) = min (nat overlap) (length temp)"
  by (simp add: retain_positive)

lemma buffer_loop_rejoin:
  assumes "0 < overlap"
    and "buffer_loop count chunk_size overlap ps bs temp = (bs', temp')"
    and "concat (drop_overlap (nat overlap) [] (bs @ [temp])) = consumed"
    and "min (nat overlap) (length (last ([] # bs))) \<le> length temp"
  shows "concat (drop_overlap (nat overlap) [] (bs' @ [temp'])) = consumed @ ps"
  using assms(2-4)
proof (induction ps arbitrary: bs temp consumed)
  case Nil
  then show ?case by simp
next
  case (Cons p ps)
  show ?case
  proof (cases "int (count p + sum_list (map count temp)) > chunk_size")
    case True
    with Cons.prems(1)
    have run: "buffer_loop count chunk_size overlap ps (bs @ [temp]) (retain overlap temp @ [p]) = (bs', temp')"
      by (simp add: Let_def)
    have "drop_overlap (nat overlap) [] ((bs @ [temp]) @ [retain overlap temp @ [p]]) =
            drop_overlap (nat overlap) [] (bs @ [temp]) @ [[p]]"
      using length_retain_positive [OF assms(1), of temp]
      by (subst drop_overlap_snoc) simp
    then have "concat (drop_overlap (nat overlap) [] ((bs @ [temp]) @ [retain overlap temp @ [p]])) = consumed @ [p]"
      using Cons.prems(2) by (simp del: append_assoc)
    moreover have "min (nat overlap) (length (last ([] # bs @ [temp]))) \<le> length (retain overlap temp @ [p])"
      using length_retain_positive [OF assms(1), of temp] by simp
    ultimately show ?thesis
      using Cons.IH [OF run] by simp
  next
    case False
    with Cons.prems(1)
    have run: "buffer_loop count chunk_size overlap ps bs (temp @ [p]) = (bs', temp')"
      by (simp add: Let_def)
    have "concat (drop_overlap (nat overlap) [] (bs @ [temp @ [p]])) = consumed @ [p]"
      using Cons.prems(2,3) by (simp add: drop_overlap_snoc)
    moreover have "min (nat overlap) (length (last ([] # bs))) \<le> length (temp @ [p])"
      using Cons.prems(3) by simp
    ultimately show ?thesis
      using Cons.IH [OF run] by simp
  qed
qed

lemma chunk_buffers_rejoin:
  assumes "0 < overlap"
  shows "concat (drop_overlap (nat overlap) [] (chunk_buffers count chunk_size txt overlap)) = str_split NL txt"
proof -
  obtain bs' temp' where run: "buffer_loop count chunk_size overlap (str_split NL txt) [] [] = (bs', temp')"
    by (cases "buffer_loop count chunk_size overlap (str_split NL txt) [] []") blast
  have "temp' \<noteq> []"
    using buffer_loop_temp_nonempty [OF run] by (simp add: str_split_def str_split_from_nonempty)
  then have "chunk_buffers count chunk_size txt overlap = bs' @ [temp']"
    using run by (simp add: chunk_buffers_def)
  moreover have "concat (drop_overlap (nat overlap) [] (bs' @ [temp'])) = [] @ str_split NL txt"
    by (rule buffer_loop_rejoin [OF assms run]) simp_all
  ultimately show ?thesis by simp
qed

lemma chunk_buffers_nonempty: "chunk_buffers count chunk_size txt overlap \<noteq> []"
proof -
  obtain bs' temp' where run: "buffer_loop count chunk_size overlap (str_split NL txt) [] [] = (bs', temp')"
    by (cases "buffer_loop count chunk_size overlap (str_split NL txt) [] []") blast
  have "temp' \<noteq> []"
    using buffer_loop_temp_nonempty [OF run] by (simp add: str_split_def str_split_from_nonempty)
  then show ?thesis
    using run by (simp add: chunk_buffers_def)
qed

subsection \<open>The limit, whole paragraphs, coverage\<close>

lemma chain_ok_extend_last:
  assumes "chain_ok count chunk_size overlap (bs @ [temp])"
    and "int (sum_list (map count (temp @ [p]))) \<le> chunk_size"
  shows "chain_ok count chunk_size overlap (bs @ [temp @ [p]])"
  unfolding chain_ok_def
proof (intro allI impI)
  fix i assume i: "i < length (bs @ [temp @ [p]])"
  let ?P = "\<lambda>xs. xs ! i = [] \<or> int (sum_list (map count (xs ! i))) \<le> chunk_size
        \<or> (0 < i \<and> xs ! i = retain overlap (xs ! (i - 1)) @ [last (xs ! i)])"
  show "?P (bs @ [temp @ [p]])"
  proof (cases "i < length bs")
    case True
    then have "?P (bs @ [temp])"
      using assms(1) by (simp add: chain_ok_def)
    moreover have "i - 1 < length bs"
      using True by simp
    ultimately show ?thesis
      using True by (simp add: nth_append)
  next
    case False
    with i have "i = length bs" by simp
    then show ?thesis using assms(2) by simp
  qed
qed

lemma chain_ok_seed:
  assumes "chain_ok count chunk_size overlap (bs @ [temp])"
  shows "chain_ok count chunk_size overlap ((bs @ [temp]) @ [retain overlap temp @ [p]])"
  unfolding chain_ok_def
proof (intro allI impI)
  fix i assume i: "i < length ((bs @ [temp]) @ [retain overlap temp @ [p]])"
  let ?P = "\<lambda>xs. xs ! i = [] \<or> int (sum_list (map count (xs ! i))) \<le> chunk_size
        \<or> (0 < i \<and> xs ! i = retain overlap (xs ! (i - 1)) @ [last (xs ! i)])"
  show "?P ((bs @ [temp]) @ [retain overlap temp @ [p]])"
  proof (cases "i < length (bs @ [temp])")
    case True
    then have "?P (bs @ [temp])"
      using assms by (simp add: chain_ok_def)
    moreover have "i - 1 < length (bs @ [temp])"
      using True by simp
    ultimately show ?thesis
      using True by (simp add: nth_append [of "bs @ [temp]"] del: append_assoc)
  next
    case False
    with i have "i = length (bs @ [temp])" by simp
    then show ?thesis
      by (simp add: nth_append [of "bs @ [temp]"] del: append_assoc)
  qed
qed

lemma buffer_loop_chain_ok:
  "buffer_loop count chunk_size overlap ps bs temp = (bs', temp')
     \<Longrightarrow> chain_ok count chunk_size overlap (bs @ [temp])
     \<Longrightarrow> chain_ok count chunk_size overlap (bs' @ [temp'])"
proof (induction ps arbitrary: bs temp)
  case Nil
  then show ?case by simp
next
  case (Cons p ps)
  show ?case
  proof (cases "int (count p + sum_list (map count temp)) > chunk_size")
    case True
    with Cons.prems(1)
    have run: "buffer_loop count chunk_size overlap ps (bs @ [temp]) (retain overlap temp @ [p]) = (bs', temp')"
      by (simp add: Let_def)
    show ?thesis
      by (rule Cons.IH [OF run chain_ok_seed [OF Cons.prems(2)]])
  next
    case False
    with Cons.prems(1)
    have run: "buffer_loop count chunk_size overlap ps bs (temp @ [p]) = (bs', temp')"
      by (simp add: Let_def)
    from False have "int (sum_list (map count (temp @ [p]))) \<le> chunk_size"
      by simp
    from Cons.IH [OF run chain_ok_extend_last [OF Cons.prems(2) this]] show ?thesis .
  qed
qed

lemma buffer_loop_keeps_buffers:
  "buffer_loop count chunk_size overlap ps bs temp = (bs', temp') \<Longrightarrow> set bs \<subseteq> set bs'"
proof (induction ps arbitrary: bs temp)
  case Nil
  then show ?case by simp
next
  case (Cons p ps)
  show ?case
  proof (cases "int (count p + sum_list (map count temp)) > chunk_size")
    case True
    with Cons.prems
    have "buffer_loop count chunk_size overlap ps (bs @ [temp]) (retain overlap temp @ [p]) = (bs', temp')"
      by (simp add: Let_def)
    from Cons.IH [OF this] show ?thesis by simp
  next
    case False
    with Cons.prems
    have "buffer_loop count chunk_size overlap ps bs (temp @ [p]) = (bs', temp')"
      by (simp add: Let_def)
    from Cons.IH [OF this] show ?thesis .
  qed
qed

lemma over_limit_buffer_is_emitted:
  assumes "buffer_loop count chunk_size overlap ps bs temp = (bs', temp')"
    and "temp \<noteq> []" and "chunk_size < int (count (last temp))"
  shows "temp \<in> set (bs' @ [temp'])"
proof (cases ps)
  case Nil
  with assms(1) show ?thesis by simp
next
  case (Cons q qs)
  have "count (last temp) \<in> set (map count temp)"
    using assms(2) by simp
  then have "count (last temp) \<le> sum_list (map count temp)"
    by (simp add: member_le_sum_list)
  then have "int (count q + sum_list (map count temp)) > chunk_size"
    using assms(3) by simp
  with assms(1) Cons
  have "buffer_loop count chunk_size overlap qs (bs @ [temp]) (retain overlap temp @ [q]) = (bs', temp')"
    by (simp add: Let_def)
  from buffer_loop_keeps_buffers [OF this] show ?thesis by simp
qed

lemma over_limit_paragraph_closes_buffer:
  "buffer_loop count chunk_size overlap ps bs temp = (bs', temp') \<Longrightarrow> p \<in> set ps
     \<Longrightarrow> chunk_size < int (count p)
     \<Longrightarrow> \<exists>b\<in>set (bs' @ [temp']). b \<noteq> [] \<and> last b = p"
proof (induction ps arbitrary: bs temp)
  case Nil
  then show ?case by simp
next
  case (Cons q qs)
  show ?case
  proof (cases "int (count q + sum_list (map count temp)) > chunk_size")
    case True
    with Cons.prems(1)
    have run: "buffer_loop count chunk_size overlap qs (bs @ [temp]) (retain overlap temp @ [q]) = (bs', temp')"
      by (simp add: Let_def)
    show ?thesis
    proof (cases "p = q")
      case True
      have "retain overlap temp @ [q] \<in> set (bs' @ [temp'])"
        using over_limit_buffer_is_emitted [OF run] Cons.prems(3) True by simp
      then show ?thesis
        using True by (intro bexI [of _ "retain overlap temp @ [q]"]) simp_all
    next
      case False
      with Cons.prems(2) have "p \<in> set qs" by simp
      from Cons.IH [OF run this Cons.prems(3)] show ?thesis .
    qed
  next
    case False
    with Cons.prems(1)
    have run: "buffer_loop count chunk_size overlap qs bs (temp @ [q]) = (bs', temp')"
      by (simp add: Let_def)
    have "p \<noteq> q"
      using False Cons.prems(3) by auto
    with Cons.prems(2) have "p \<in> set qs" by simp
    from Cons.IH [OF run this Cons.prems(3)] show ?thesis .
  qed
qed

lemma buffer_loop_whole_paragraphs:
  "buffer_loop count chunk_size overlap ps bs temp = (bs', temp')
     \<Longrightarrow> suffix temp consumed \<Longrightarrow> \<forall>b\<in>set bs. sublist b consumed
     \<Longrightarrow> \<forall>b\<in>set (bs' @ [temp']). sublist b (consumed @ ps)"
proof (induction ps arbitrary: bs temp consumed)
  case Nil
  then show ?case by auto
next
  case (Cons p ps)
  have grow: "\<forall>b\<in>set bs. sublist b (consumed @ [p])"
    using Cons.prems(3) by (auto intro: sublist_appendI simp: sublist_append)
  show ?case
  proof (cases "int (count p + sum_list (map count temp)) > chunk_size")
    case True
    with Cons.prems(1)
    have run: "buffer_loop count chunk_size overlap ps (bs @ [temp]) (retain overlap temp @ [p]) = (bs', temp')"
      by (simp add: Let_def)
    have "suffix (retain overlap temp) consumed"
      using retain_suffix Cons.prems(2) suffix_order.trans by blast
    then have s: "suffix (retain overlap temp @ [p]) (consumed @ [p])"
      by simp
    have "sublist temp (consumed @ [p])"
      using Cons.prems(2) by (auto simp: sublist_append)
    with grow have "\<forall>b\<in>set (bs @ [temp]). sublist b (consumed @ [p])"
      by simp
    from Cons.IH [OF run s this] show ?thesis by simp
  next
    case False
    with Cons.prems(1)
    have run: "buffer_loop count chunk_size overlap ps bs (temp @ [p]) = (bs', temp')"
      by (simp add: Let_def)
    have s: "suffix (temp @ [p]) (consumed @ [p])"
      using Cons.prems(2) by simp
    from Cons.IH [OF run s grow] show ?thesis by simp
  qed
qed

lemma buffer_loop_covers:
  "buffer_loop count chunk_size overlap ps bs temp = (bs', temp')
     \<Longrightarrow> set (concat (bs' @ [temp'])) = set (concat (bs @ [temp])) \<union> set ps"
proof (induction ps arbitrary: bs temp)
  case Nil
  then show ?case by simp
next
  case (Cons p ps)
  show ?case
  proof (cases "int (count p + sum_list (map count temp)) > chunk_size")
    case True
    with Cons.prems(1)
    have run: "buffer_loop count chunk_size overlap ps (bs @ [temp]) (retain overlap temp @ [p]) = (bs', temp')"
      by (simp add: Let_def)
    have "set (retain overlap temp) \<subseteq> set temp"
      using retain_suffix [of overlap temp] by (simp add: set_mono_suffix)
    then show ?thesis
      using Cons.IH [OF run] by auto
  next
    case False
    with Cons.prems(1)
    have run: "buffer_loop count chunk_size overlap ps bs (temp @ [p]) = (bs', temp')"
      by (simp add: Let_def)
    show ?thesis
      using Cons.IH [OF run] by auto
  qed
qed

subsection \<open>The claims on the text chunker\<close>

text \<open>
  Claim C2. When a chunk is emitted because the next paragraph would exceed the limit, the
  next buffer should start with the last \<open>min k (length buffer)\<close> paragraphs of the
  emitted buffer, hence with none of them for \<open>k = 0\<close>. For \<open>k > 0\<close> the code
  does so (\<open>retain_positive\<close>). For \<open>k = 0\<close>, the default, the slice
  \<^verbatim>\<open>temp_paragraphs[-0:]\<close> is the whole list (\<open>retain_zero\<close>): on the text
  \<^verbatim>\<open>"a\nb"\<close>, one token per character and a limit of one token, the second chunk
  repeats the first paragraph.
\<close>

theorem overlap_zero_keeps_buffer:
  "retain 0 [''a''] = [''a'']
   \<and> chunk_buffers char_tokens 1 ''a\<newline>b'' 0 = [[''a''], [''a'', ''b'']]
   \<and> chunk_paragraphs char_tokens 1 ''a\<newline>b'' 0 = [''a'', ''a\<newline>b'']"
  by (simp add: chunk_paragraphs_def chunk_buffers_def str_split_def retain_def slice_from_def
      str_strip_def is_space_def char_tokens_def)

text \<open>
  Claim C3, as stated, fails, in three ways. The loop compares the sum of the paragraphs'
  own token counts with the limit, so the newlines that join them are not counted (first
  run below, one token per character). The paragraphs kept for the overlap are followed
  by the next paragraph without a new comparison (second run, where white space costs no
  token). And with an overlap a paragraph that alone exceeds the limit is emitted after
  the paragraphs kept before it, and again as a kept paragraph, never as a chunk of its
  own (third run).
\<close>

theorem chunk_limit_counterexample:
  "chunk_paragraphs char_tokens 2 ''a\<newline>b'' 1 = [''a\<newline>b'']
   \<and> str_split NL ''a\<newline>b'' = [''a'', ''b'']
   \<and> \<not> int (char_tokens ''a\<newline>b'') \<le> 2
   \<and> chunk_paragraphs visible_tokens 2 ''a\<newline>b\<newline>cc'' 1 = [''a\<newline>b'', ''b\<newline>cc'']
   \<and> str_split NL ''b\<newline>cc'' = [''b'', ''cc'']
   \<and> \<not> int (visible_tokens ''b\<newline>cc'') \<le> 2
   \<and> chunk_paragraphs visible_tokens 2 ''x\<newline>PPPP\<newline>y'' 1 =
       [''x'', ''x\<newline>PPPP'', ''PPPP\<newline>y'']
   \<and> \<not> int (visible_tokens ''PPPP'') \<le> 2
   \<and> ''PPPP'' \<notin> set (chunk_paragraphs visible_tokens 2 ''x\<newline>PPPP\<newline>y'' 1)"
  by (simp add: chunk_paragraphs_def str_split_def retain_def slice_from_def
      str_strip_def is_space_def char_tokens_def visible_tokens_def)

text \<open>
  Claim C3, amended. Every chunk is the trimmed join of a buffer of whole paragraphs of
  the input, consecutive in it; every paragraph of the input is in some buffer; and a
  paragraph that alone exceeds \<open>chunk_size\<close> is the last paragraph of some buffer. For
  an overlap \<open>k > 0\<close>, a buffer of more than one paragraph either is within
  \<open>chunk_size\<close> by the sum of the token counts of its paragraphs, or is made of
  exactly the last \<open>min k (length previous)\<close> paragraphs of the buffer before it
  followed by exactly one more paragraph, hence of at most \<open>k + 1\<close> paragraphs.
\<close>

theorem chunk_limit_or_carried:
  "chunk_paragraphs count chunk_size txt overlap =
     map emit (chunk_buffers count chunk_size txt overlap)
   \<and> set (concat (chunk_buffers count chunk_size txt overlap)) = set (str_split NL txt)
   \<and> (\<forall>i<length (chunk_buffers count chunk_size txt overlap).
        sublist (chunk_buffers count chunk_size txt overlap ! i) (str_split NL txt))
   \<and> (\<forall>p\<in>set (str_split NL txt). chunk_size < int (count p) \<longrightarrow>
        (\<exists>i<length (chunk_buffers count chunk_size txt overlap).
           chunk_buffers count chunk_size txt overlap ! i \<noteq> []
           \<and> last (chunk_buffers count chunk_size txt overlap ! i) = p))
   \<and> (0 < overlap \<longrightarrow>
        (\<forall>i<length (chunk_buffers count chunk_size txt overlap).
           1 < length (chunk_buffers count chunk_size txt overlap ! i) \<longrightarrow>
             int (sum_list (map count (chunk_buffers count chunk_size txt overlap ! i))) \<le> chunk_size
             \<or> (0 < i
                 \<and> chunk_buffers count chunk_size txt overlap ! i =
                     drop (length (chunk_buffers count chunk_size txt overlap ! (i - 1))
                           - min (nat overlap)
                               (length (chunk_buffers count chunk_size txt overlap ! (i - 1))))
                       (chunk_buffers count chunk_size txt overlap ! (i - 1))
                     @ [last (chunk_buffers count chunk_size txt overlap ! i)]
                 \<and> length (chunk_buffers count chunk_size txt overlap ! i) \<le> nat overlap + 1)))"
proof -
  let ?bs = "chunk_buffers count chunk_size txt overlap"
  obtain bs' temp' where run:
    "buffer_loop count chunk_size overlap (str_split NL txt) [] [] = (bs', temp')"
    by (cases "buffer_loop count chunk_size overlap (str_split NL txt) [] []") blast
  have "temp' \<noteq> []"
    using buffer_loop_temp_nonempty [OF run] by (simp add: str_split_def str_split_from_nonempty)
  then have bs: "?bs = bs' @ [temp']"
    using run by (simp add: chunk_buffers_def)
  have covers: "set (concat ?bs) = set (str_split NL txt)"
    using buffer_loop_covers [OF run] bs by simp
  have "chain_ok count chunk_size overlap ([] @ [[]])"
    by (simp add: chain_ok_def)
  from buffer_loop_chain_ok [OF run this] have chain: "chain_ok count chunk_size overlap ?bs"
    using bs by simp
  have "\<forall>b\<in>set (bs' @ [temp']). sublist b ([] @ str_split NL txt)"
    by (rule buffer_loop_whole_paragraphs [OF run]) simp_all
  then have "\<forall>b\<in>set ?bs. sublist b (str_split NL txt)"
    using bs by simp
  then have whole: "\<forall>i<length ?bs. sublist (?bs ! i) (str_split NL txt)"
    by simp
  have closes: "\<forall>p\<in>set (str_split NL txt). chunk_size < int (count p) \<longrightarrow>
        (\<exists>i<length ?bs. ?bs ! i \<noteq> [] \<and> last (?bs ! i) = p)"
  proof (intro ballI impI)
    fix p assume "p \<in> set (str_split NL txt)" and "chunk_size < int (count p)"
    with over_limit_paragraph_closes_buffer [OF run]
    have "\<exists>b\<in>set ?bs. b \<noteq> [] \<and> last b = p"
      using bs by simp
    then show "\<exists>i<length ?bs. ?bs ! i \<noteq> [] \<and> last (?bs ! i) = p"
      by (metis in_set_conv_nth)
  qed
  have seeded: "int (sum_list (map count (?bs ! i))) \<le> chunk_size
             \<or> (0 < i
                 \<and> ?bs ! i = drop (length (?bs ! (i - 1)) - min (nat overlap) (length (?bs ! (i - 1))))
                       (?bs ! (i - 1)) @ [last (?bs ! i)]
                 \<and> length (?bs ! i) \<le> nat overlap + 1)"
    if pos: "0 < overlap" and i: "i < length ?bs" and long: "1 < length (?bs ! i)" for i
  proof -
    from long have "?bs ! i \<noteq> []" by auto
    with chain i have "int (sum_list (map count (?bs ! i))) \<le> chunk_size
        \<or> (0 < i \<and> ?bs ! i = retain overlap (?bs ! (i - 1)) @ [last (?bs ! i)])"
      unfolding chain_ok_def by blast
    then show ?thesis
    proof
      assume "int (sum_list (map count (?bs ! i))) \<le> chunk_size"
      then show ?thesis by simp
    next
      assume s: "0 < i \<and> ?bs ! i = retain overlap (?bs ! (i - 1)) @ [last (?bs ! i)]"
      then have "length (?bs ! i) = length (retain overlap (?bs ! (i - 1))) + 1"
        by (metis length_append_singleton Suc_eq_plus1)
      then have "length (?bs ! i) \<le> nat overlap + 1"
        using length_retain_positive [OF pos, of "?bs ! (i - 1)"] by simp
      then show ?thesis
        using s retain_positive [OF pos, of "?bs ! (i - 1)"] by simp
    qed
  qed
  show ?thesis
    using chunk_paragraphs_buffers [of count chunk_size "txt" overlap] covers whole closes seeded
    by blast
qed

theorem chunk_limit_or_carried_witness:
  "chunk_buffers visible_tokens 2 ''x\<newline>PPPP\<newline>y'' 1 = [[''x''], [''x'', ''PPPP''], [''PPPP'', ''y'']]
   \<and> ''PPPP'' \<in> set (str_split NL ''x\<newline>PPPP\<newline>y'')
   \<and> 2 < int (visible_tokens ''PPPP'')
   \<and> last [''x'', ''PPPP''] = ''PPPP''
   \<and> (0::int) < 1
   \<and> \<not> int (sum_list (map visible_tokens [''PPPP'', ''y''])) \<le> 2
   \<and> [''PPPP'', ''y''] = drop (length [''x'', ''PPPP''] - min (nat 1) (length [''x'', ''PPPP'']))
                            [''x'', ''PPPP''] @ [''y'']
   \<and> length [''PPPP'', ''y''] \<le> nat 1 + 1
   \<and> sublist [''PPPP'', ''y''] (str_split NL ''x\<newline>PPPP\<newline>y'')"
proof -
  let ?t = "''x\<newline>PPPP\<newline>y''"
  let ?bs = "[[''x''], [''x'', ''PPPP''], [''PPPP'', ''y'']]"
  have bs: "chunk_buffers visible_tokens 2 ?t 1 = ?bs"
    by (simp add: chunk_buffers_def str_split_def retain_def slice_from_def
        is_space_def visible_tokens_def)
  have sp: "str_split NL ?t = [''x'', ''PPPP'', ''y'']"
    by (simp add: str_split_def)
  have over: "2 < int (visible_tokens ''PPPP'')"
    by (simp add: visible_tokens_def is_space_def)
  have over2: "\<not> int (sum_list (map visible_tokens [''PPPP'', ''y''])) \<le> 2"
    by (simp add: visible_tokens_def is_space_def)
  have two: "(2::nat) < length (chunk_buffers visible_tokens 2 ?t 1)"
    by (simp add: bs)
  have long: "1 < length (chunk_buffers visible_tokens 2 ?t 1 ! 2)"
    by (simp add: bs)
  have pos: "(0::int) < 1" by simp
  note inst = chunk_limit_or_carried [of visible_tokens 2 ?t 1]
  note c3 = inst [THEN conjunct2, THEN conjunct2, THEN conjunct1, rule_format, OF two, unfolded bs]
  note c5 = inst [THEN conjunct2, THEN conjunct2, THEN conjunct2, THEN conjunct2, rule_format,
      OF pos two long, unfolded bs]
  have n2: "[[''x''], [''x'', ''PPPP''], [''PPPP'', ''y'']] ! 2 = [''PPPP'', ''y'']"
    by simp
  have n1: "[[''x''], [''x'', ''PPPP''], [''PPPP'', ''y'']] ! (2 - 1) = [''x'', ''PPPP'']"
    by simp
  from c3 have whole: "sublist [''PPPP'', ''y''] (str_split NL ?t)"
    unfolding n2 .
  from c5 have "int (sum_list (map visible_tokens [''PPPP'', ''y''])) \<le> 2
      \<or> ((0::nat) < 2
          \<and> [''PPPP'', ''y''] = drop (length [''x'', ''PPPP''] - min (nat 1) (length [''x'', ''PPPP'']))
                            [''x'', ''PPPP''] @ [last [''PPPP'', ''y'']]
          \<and> length [''PPPP'', ''y''] \<le> nat 1 + 1)"
    unfolding n2 n1 .
  with over2
  have carried: "(0::nat) < 2
          \<and> [''PPPP'', ''y''] = drop (length [''x'', ''PPPP''] - min (nat 1) (length [''x'', ''PPPP'']))
                            [''x'', ''PPPP''] @ [last [''PPPP'', ''y'']]
          \<and> length [''PPPP'', ''y''] \<le> nat 1 + 1"
    by blast
  have lst: "last [''PPPP'', ''y''] = ''y''" by simp
  have c1: "[''PPPP'', ''y''] = drop (length [''x'', ''PPPP''] - min (nat 1) (length [''x'', ''PPPP'']))
                            [''x'', ''PPPP''] @ [''y'']"
    using carried unfolding lst by (elim conjE)
  have c2: "length [''PPPP'', ''y''] \<le> nat 1 + 1"
    using carried by (elim conjE)
  have mem: "''PPPP'' \<in> set (str_split NL ?t)"
    by (simp add: sp)
  have l2: "last [''x'', ''PPPP''] = ''PPPP''" by simp
  show ?thesis
    by (intro conjI) (rule bs mem over l2 pos over2 c1 c2 whole)+
qed

text \<open>
  Claim C4, as stated, fails: the chunks are trimmed, so the white space at the ends of a
  chunk is lost and its paragraphs are not the paragraphs of the input. Here the input is
  one paragraph that starts with a space.
\<close>

theorem chunk_rejoin_counterexample:
  "chunk_paragraphs char_tokens 10 '' a'' 1 = [''a'']
   \<and> concat (drop_overlap 1 [] (map (str_split NL) (chunk_paragraphs char_tokens 10 '' a'' 1)))
       \<noteq> str_split NL '' a''"
  by (simp add: chunk_paragraphs_def str_split_def retain_def slice_from_def
      str_strip_def is_space_def char_tokens_def)

text \<open>
  Claim C4, amended. For an overlap \<open>k > 0\<close>, every chunk is the trimmed join of its
  buffer of paragraphs, and the buffers rejoin: dropping from each buffer after the first
  its first \<open>min k (length previous)\<close> paragraphs and concatenating gives exactly the
  paragraphs of the input split on newlines. The list of chunks is never empty.
\<close>

theorem chunk_buffers_rejoin_paragraphs:
  "0 < overlap \<Longrightarrow>
     chunk_paragraphs count chunk_size txt overlap =
       map emit (chunk_buffers count chunk_size txt overlap)
     \<and> concat (drop_overlap (nat overlap) [] (chunk_buffers count chunk_size txt overlap)) =
         str_split NL txt
     \<and> chunk_paragraphs count chunk_size txt overlap \<noteq> []"
  using chunk_buffers_rejoin [of overlap count chunk_size "txt"]
    chunk_buffers_nonempty [of count chunk_size "txt" overlap]
  by (simp add: chunk_paragraphs_buffers)

theorem chunk_buffers_rejoin_paragraphs_witness:
  "(0::int) < 1
   \<and> chunk_buffers visible_tokens 2 ''a\<newline>b\<newline>cc'' 1 = [[''a'', ''b''], [''b'', ''cc'']]
   \<and> concat (drop_overlap (nat 1) [] (chunk_buffers visible_tokens 2 ''a\<newline>b\<newline>cc'' 1)) =
        [''a'', ''b'', ''cc'']
   \<and> chunk_paragraphs visible_tokens 2 ''a\<newline>b\<newline>cc'' 1 \<noteq> []"
proof -
  have bs: "chunk_buffers visible_tokens 2 ''a\<newline>b\<newline>cc'' 1 = [[''a'', ''b''], [''b'', ''cc'']]"
    by (simp add: chunk_buffers_def str_split_def retain_def slice_from_def
        is_space_def visible_tokens_def)
  have sp: "str_split NL ''a\<newline>b\<newline>cc'' = [''a'', ''b'', ''cc'']"
    by (simp add: str_split_def)
  have pos: "(0::int) < 1" by simp
  from chunk_buffers_rejoin_paragraphs [OF pos, of visible_tokens 2 "''a\<newline>b\<newline>cc''"] bs sp pos
  show ?thesis by simp
qed

section \<open>Properties of the result aggregator\<close>







section \<open>Properties of the capability registry\<close>

lemma str_split_max_from_no_sep:
  "sep \<notin> set s \<Longrightarrow> str_split_max_from sep n cur s = [cur @ s]"
  by (induction s arbitrary: cur) auto

lemma str_split_max_from_first_sep:
  "sep \<notin> set s \<Longrightarrow> 0 < n \<Longrightarrow>
     str_split_max_from sep n cur (s @ sep # rest) = (cur @ s) # str_split_max_from sep (n - 1) [] rest"
  by (induction s arbitrary: cur) auto

lemma split_qualified_name:
  assumes "CHR ''-'' \<notin> set owner" and "CHR ''-'' \<notin> set bare"
  shows "str_split_max (CHR ''-'') 2 (owner @ ''-'' @ bare) = [owner, bare]"
proof -
  have "str_split_max_from (CHR ''-'') 2 [] (owner @ CHR ''-'' # bare) =
          ([] @ owner) # str_split_max_from (CHR ''-'') (2 - 1) [] bare"
    by (rule str_split_max_from_first_sep [OF assms(1)]) simp
  then show ?thesis
    using str_split_max_from_no_sep [OF assms(2), of "2 - 1" "[]"]
    by (simp add: str_split_max_def)
qed

lemma owner_schemas_member:
  "(name, Method (Some sch) body) \<in> set (attrs obj)
     \<Longrightarrow> sch\<lparr>s_name := src_name @ ''-'' @ s_name sch\<rparr> \<in> set (owner_schemas src_name obj)"
  by (force simp: owner_schemas_def)

lemma collect_schemas_member:
  "(src_name, obj) \<in> set chest \<Longrightarrow> sch' \<in> set (owner_schemas src_name obj)
     \<Longrightarrow> sch' \<in> set (collect_schemas chest)"
  by (force simp: collect_schemas_def)

lemma functions_list_first_call:
  "fst (functions_list chest (e\<lparr>schemas := None\<rparr>)) = collect_schemas chest"
  by (simp add: functions_list_def)

lemma published_and_invocable:
  assumes "map_of chest owner = Some obj"
    and "map_of (attrs obj) bare = Some (Method (Some sch) body)"
    and "s_name sch = bare"
    and "CHR ''-'' \<notin> set owner" and "CHR ''-'' \<notin> set bare"
  shows "sch\<lparr>s_name := owner @ ''-'' @ bare\<rparr> \<in> set (collect_schemas chest)"
    and "call_function chest (owner @ ''-'' @ bare) (JObj kwargs) = body kwargs"
proof -
  have "(bare, Method (Some sch) body) \<in> set (attrs obj)"
    using assms(2) by (rule map_of_SomeD)
  then have "sch\<lparr>s_name := owner @ ''-'' @ s_name sch\<rparr> \<in> set (owner_schemas owner obj)"
    by (rule owner_schemas_member)
  moreover have "(owner, obj) \<in> set chest"
    using assms(1) by (rule map_of_SomeD)
  ultimately show "sch\<lparr>s_name := owner @ ''-'' @ bare\<rparr> \<in> set (collect_schemas chest)"
    using assms(3) collect_schemas_member by blast
  show "call_function chest (owner @ ''-'' @ bare) (JObj kwargs) = body kwargs"
    using split_qualified_name [OF assms(4,5)] assms(1,2)
    by (simp add: call_function_def)
qed

lemma invocable:
  assumes "map_of chest owner = Some obj"
    and "map_of (attrs obj) bare = Some (Method sch body)"
    and "CHR ''-'' \<notin> set owner" and "CHR ''-'' \<notin> set bare"
  shows "call_function chest (owner @ ''-'' @ bare) (JObj kwargs) = body kwargs"
    and "call_target chest (owner @ ''-'' @ bare) (JObj kwargs) = [(owner, bare, kwargs)]"
  using split_qualified_name [OF assms(3,4)] assms(1,2)
  by (simp_all add: call_function_def call_target_def)

lemma call_target_nothing:
  "call_target chest function_id function_args = [] \<Longrightarrow>
     call_function chest function_id function_args
       \<in> {Inl ValueError, Inl KeyError, Inl AttributeError, Inl TypeError}"
  by (simp add: call_function_def call_target_def
      split: list.splits option.splits attr.splits json.splits)

lemma call_target_something:
  "call_target chest function_id function_args = t # ts \<Longrightarrow>
     ts = [] \<and> (\<exists>obj sch body.
        map_of chest (fst t) = Some obj
        \<and> map_of (attrs obj) (fst (snd t)) = Some (Method sch body)
        \<and> function_args = JObj (snd (snd t))
        \<and> call_function chest function_id function_args = body (snd (snd t)))"
  by (auto simp: call_function_def call_target_def
      split: list.splits option.splits attr.splits json.splits)

subsection \<open>The claim on publishing and invoking\<close>

text \<open>
  Claim C6. For an owner of the tool chest and a method of it that carries a schema under
  its own name, neither name containing \<^verbatim>\<open>-\<close>: the first call of \<^verbatim>\<open>__functions\<close>
  publishes the schema under the owner's name, \<^verbatim>\<open>-\<close> and the method's name; splitting
  that qualified name gives the two names back; and \<^verbatim>\<open>__call_function\<close> on it returns
  what the owner's method returns on the unpacked arguments, its failure included, as it
  is.
\<close>

theorem publish_invoke_roundtrip:
  assumes "map_of chest owner = Some obj"
    and "map_of (attrs obj) bare = Some (Method (Some sch) body)"
    and "s_name sch = bare"
    and "CHR ''-'' \<notin> set owner" and "CHR ''-'' \<notin> set bare"
  shows "sch\<lparr>s_name := owner @ ''-'' @ bare\<rparr> \<in> set (fst (functions_list chest (e\<lparr>schemas := None\<rparr>)))
     \<and> str_split_max (CHR ''-'') 2 (owner @ ''-'' @ bare) = [owner, bare]
     \<and> call_function chest (owner @ ''-'' @ bare) (JObj kwargs) = body kwargs"
  using published_and_invocable [OF assms] split_qualified_name [OF assms(4,5)]
  by (simp add: functions_list_first_call)

theorem publish_invoke_roundtrip_witness:
  "map_of echo_tools ''tools'' = Some (PyObject 1 [decorated ''Echo'' [] ''echo'' (\<lambda>kwargs. Inr (JStr ''pong''))])
   \<and> fst (functions_list echo_tools (default_engine (PyObject 0 []) 0)) =
       [\<lparr>s_name = ''tools-echo'', s_description = ''Echo'', s_parameters = [], s_required = None\<rparr>]
   \<and> str_split_max (CHR ''-'') 2 ''tools-echo'' = [''tools'', ''echo'']
   \<and> call_function echo_tools ''tools-echo'' (JObj []) = Inr (JStr ''pong'')"
proof -
  let ?body = "\<lambda>kwargs :: (string \<times> json) list. (Inr (JStr ''pong'') :: exn + json)"
  let ?obj = "PyObject 1 [decorated ''Echo'' [] ''echo'' ?body]"
  let ?sch = "json_schema ''Echo'' [] ''echo''"
  have h1: "map_of echo_tools ''tools'' = Some ?obj"
    by (simp add: echo_tools_def)
  have h2: "map_of (attrs ?obj) ''echo'' = Some (Method (Some ?sch) ?body)"
    by (simp add: decorated_def)
  have h3: "s_name ?sch = ''echo''"
    by (simp add: json_schema_def)
  have h4: "CHR ''-'' \<notin> set ''tools''" by simp
  have h5: "CHR ''-'' \<notin> set ''echo''" by simp
  have all: "fst (functions_list echo_tools (default_engine (PyObject 0 []) 0)) =
       [\<lparr>s_name = ''tools-echo'', s_description = ''Echo'', s_parameters = [], s_required = None\<rparr>]"
    by (simp add: functions_list_def default_engine_def collect_schemas_def owner_schemas_def
        echo_tools_def decorated_def json_schema_def)
  from publish_invoke_roundtrip [OF h1 h2 h3 h4 h5, of "default_engine (PyObject 0 []) 0" "[]"]
  show ?thesis
    using h1 all by simp
qed

subsection \<open>The claim on the engine in its own tool chest\<close>

lemma init_given_tools:
  assumes "init self kwargs h = Inr (e, h')" and "kw_tools kwargs = Some a"
  shows "self_obj e = self" and "schemas e = None" and "tool_chest e = a"
    and "h' = h[a := AList.update ''self'' self (h ! a)]"
  using assms by (auto simp: init_def Let_def split: if_splits)

text \<open>
  Claim C10, as stated, fails: the tool chest is the caller's dictionary, so it does not
  map \<^verbatim>\<open>'self'\<close> to the engine for the whole lifetime of the engine. When a second
  engine is constructed with the same dictionary, the entry of the first is overwritten:
  the tool chest of the first engine then maps \<^verbatim>\<open>'self'\<close> to the second.
\<close>

theorem shared_tools_counterexample:
  "init (PyObject 1 []) shared_tools_kwargs [[]] =
     Inr (default_engine (PyObject 1 []) 0, [[(''self'', PyObject 1 [])]])
   \<and> init (PyObject 2 []) shared_tools_kwargs [[(''self'', PyObject 1 [])]] =
     Inr (default_engine (PyObject 2 []) 0, [[(''self'', PyObject 2 [])]])
   \<and> map_of ([[(''self'', PyObject 2 [])]] ! tool_chest (default_engine (PyObject 1 []) 0)) ''self''
       \<noteq> Some (self_obj (default_engine (PyObject 1 []) 0))"
  by (simp add: init_def shared_tools_kwargs_def default_engine_def)

text \<open>
  Claim C10, amended. When the constructor returns, for a caller who gave the dictionary
  at address \<open>a\<close>: the tool chest of the engine is that dictionary, changed in place
  (the heap has no new dictionary and the others are unchanged); it maps \<^verbatim>\<open>'self'\<close> to
  the engine, whatever the caller had under that key, and every other key as before;
  every method of the engine that carries a schema is published by \<^verbatim>\<open>__functions\<close> under
  \<^verbatim>\<open>self-\<close> and the schema's name, and, when the schema bears the method's own name and
  that name has no \<^verbatim>\<open>-\<close>, \<^verbatim>\<open>__call_function\<close> invokes it under that qualified name.
\<close>

theorem init_registers_self:
  assumes "init self kwargs h = Inr (e, h')" and "kw_tools kwargs = Some a" and "a < length h"
  shows "self_obj e = self \<and> tool_chest e = a \<and> length h' = length h
     \<and> (\<forall>b<length h. b \<noteq> a \<longrightarrow> h' ! b = h ! b)
     \<and> map_of (h' ! a) = (map_of (h ! a))(''self'' \<mapsto> self)
     \<and> (\<forall>name sch body. map_of (attrs self) name = Some (Method (Some sch) body) \<longrightarrow>
          sch\<lparr>s_name := ''self-'' @ s_name sch\<rparr> \<in> set (fst (functions_list (h' ! a) e))
          \<and> (s_name sch = name \<longrightarrow> CHR ''-'' \<notin> set name \<longrightarrow>
               (\<forall>kw. call_function (h' ! a) (''self-'' @ name) (JObj kw) = body kw)))"
proof -
  note facts = init_given_tools [OF assms(1,2)]
  have chest: "map_of (h' ! a) = (map_of (h ! a))(''self'' \<mapsto> self)"
    using facts(4) assms(3) by (simp add: update_conv')
  then have self_in: "map_of (h' ! a) ''self'' = Some self"
    by simp
  have fl: "fst (functions_list (h' ! a) e) = collect_schemas (h' ! a)"
    using facts(2) by (simp add: functions_list_def)
  have pub: "sch\<lparr>s_name := ''self-'' @ s_name sch\<rparr> \<in> set (fst (functions_list (h' ! a) e))"
    if m: "map_of (attrs self) name = Some (Method (Some sch) body)" for name sch body
  proof -
    have "(name, Method (Some sch) body) \<in> set (attrs self)"
      using m by (rule map_of_SomeD)
    then have "sch\<lparr>s_name := ''self'' @ ''-'' @ s_name sch\<rparr> \<in> set (owner_schemas ''self'' self)"
      by (rule owner_schemas_member)
    moreover have "(''self'', self) \<in> set (h' ! a)"
      using self_in by (rule map_of_SomeD)
    ultimately have "sch\<lparr>s_name := ''self'' @ ''-'' @ s_name sch\<rparr> \<in> set (collect_schemas (h' ! a))"
      by (rule collect_schemas_member [rotated])
    then show ?thesis
      using fl by simp
  qed
  have inv: "call_function (h' ! a) (''self-'' @ name) (JObj kw) = body kw"
    if m: "map_of (attrs self) name = Some (Method (Some sch) body)"
      and n: "s_name sch = name" and d: "CHR ''-'' \<notin> set name" for name sch body kw
  proof -
    have "CHR ''-'' \<notin> set ''self''" by simp
    from published_and_invocable(2) [OF self_in m n this d, of kw] show ?thesis
      by simp
  qed
  show ?thesis
    using facts(1,3,4) chest pub inv by simp
qed

theorem init_registers_self_witness:
  "init (PyObject 7 [decorated ''Echo'' [] ''echo'' (\<lambda>kwargs. Inr (JStr ''pong''))])
        shared_tools_kwargs [[(''self'', PyObject 1 []), (''tools'', PyObject 2 [])]] =
     Inr (default_engine (PyObject 7 [decorated ''Echo'' [] ''echo'' (\<lambda>kwargs. Inr (JStr ''pong''))]) 0,
          [[(''self'', PyObject 7 [decorated ''Echo'' [] ''echo'' (\<lambda>kwargs. Inr (JStr ''pong''))]),
            (''tools'', PyObject 2 [])]])
   \<and> \<lparr>s_name = ''self-echo'', s_description = ''Echo'', s_parameters = [], s_required = None\<rparr>
       \<in> set (fst (functions_list
            [(''self'', PyObject 7 [decorated ''Echo'' [] ''echo'' (\<lambda>kwargs. Inr (JStr ''pong''))]),
             (''tools'', PyObject 2 [])]
            (default_engine (PyObject 7 [decorated ''Echo'' [] ''echo'' (\<lambda>kwargs. Inr (JStr ''pong''))]) 0)))
   \<and> call_function
        [(''self'', PyObject 7 [decorated ''Echo'' [] ''echo'' (\<lambda>kwargs. Inr (JStr ''pong''))]),
         (''tools'', PyObject 2 [])] ''self-echo'' (JObj []) = Inr (JStr ''pong'')"
proof -
  let ?body = "\<lambda>kwargs :: (string \<times> json) list. (Inr (JStr ''pong'') :: exn + json)"
  let ?self = "PyObject 7 [decorated ''Echo'' [] ''echo'' ?body]"
  let ?h = "[[(''self'', PyObject 1 []), (''tools'', PyObject 2 [])]]"
  let ?h' = "[[(''self'', ?self), (''tools'', PyObject 2 [])]]"
  let ?sch = "json_schema ''Echo'' [] ''echo''"
  have h1: "init ?self shared_tools_kwargs ?h = Inr (default_engine ?self 0, ?h')"
    by (simp add: init_def shared_tools_kwargs_def default_engine_def)
  have h2: "kw_tools shared_tools_kwargs = Some 0"
    by (simp add: shared_tools_kwargs_def)
  have h3: "0 < length ?h" by simp
  have m: "map_of (attrs ?self) ''echo'' = Some (Method (Some ?sch) ?body)"
    by (simp add: decorated_def)
  have n: "s_name ?sch = ''echo''"
    by (simp add: json_schema_def)
  have d: "CHR ''-'' \<notin> set ''echo''" by simp
  have sch: "?sch\<lparr>s_name := ''self-'' @ s_name ?sch\<rparr> =
      \<lparr>s_name = ''self-echo'', s_description = ''Echo'', s_parameters = [], s_required = None\<rparr>"
    by (simp add: json_schema_def)
  from init_registers_self [OF h1 h2 h3]
  have "\<forall>name sch body. map_of (attrs ?self) name = Some (Method (Some sch) body) \<longrightarrow>
          sch\<lparr>s_name := ''self-'' @ s_name sch\<rparr> \<in> set (fst (functions_list (?h' ! 0) (default_engine ?self 0)))
          \<and> (s_name sch = name \<longrightarrow> CHR ''-'' \<notin> set name \<longrightarrow>
               (\<forall>kw. call_function (?h' ! 0) (''self-'' @ name) (JObj kw) = body kw))"
    by blast
  with m n d have "?sch\<lparr>s_name := ''self-'' @ s_name ?sch\<rparr> \<in> set (fst (functions_list (?h' ! 0) (default_engine ?self 0)))
     \<and> call_function (?h' ! 0) (''self-'' @ ''echo'') (JObj []) = ?body []"
    by blast
  then show ?thesis
    using h1 sch by simp
qed

section \<open>Properties of the invocation loop\<close>

lemma attempt_raises:
  "endpoint w (calls st) (opts\<lparr>o_messages := messages st\<rparr>) = Inl e
     \<Longrightarrow> attempt w chest opts st = (Inl e, st\<lparr>calls := Suc (calls st)\<rparr>)"
  by (simp add: attempt_def)

lemma handler_Retry: "handler e = Retry \<longleftrightarrow> e = OpenAIError"
  by (cases e) simp_all

lemma handler_Propagate: "handler e = Propagate \<longleftrightarrow> e \<noteq> OpenAIError"
  by (cases e) simp_all

lemma chat_loop_propagates:
  assumes "endpoint w (calls st) (opts\<lparr>o_messages := messages st\<rparr>) = Inl e" and "e \<noteq> OpenAIError"
  shows "chat_loop w chest maximum opts (Suc fuel) st = Some (Inl e, st\<lparr>calls := Suc (calls st)\<rparr>)"
proof -
  have "handler e = Propagate"
    using assms(2) by (simp add: handler_Propagate)
  then show ?thesis
    using attempt_raises [OF assms(1)] by simp
qed

lemma chat_loop_retries:
  assumes "endpoint w (calls st) (opts\<lparr>o_messages := messages st\<rparr>) = Inl OpenAIError"
  shows "chat_loop w chest maximum opts (Suc fuel) st =
           chat_loop w chest maximum opts fuel
             (st\<lparr>calls := Suc (calls st),
                 sleeps := sleeps st @ [exponential_backoff maximum (delay st)],
                 delay := delay st * 2\<rparr>)"
  using attempt_raises [OF assms] by simp

lemma chat_loop_never_transient:
  "chat_loop w chest maximum opts fuel st = Some (outcome, st') \<Longrightarrow> outcome \<noteq> Inl OpenAIError"
proof (induction fuel arbitrary: st)
  case 0
  then show ?case by simp
next
  case (Suc fuel)
  obtain r st1 where a: "attempt w chest opts st = (r, st1)"
    by (cases "attempt w chest opts st") blast
  show ?case
  proof (cases r)
    case (Inl e)
    show ?thesis
    proof (cases "handler e")
      case Propagate
      then have "e \<noteq> OpenAIError" by (simp add: handler_Propagate)
      moreover have "outcome = Inl e"
        using Suc.prems a Inl Propagate by simp
      ultimately show ?thesis by simp
    next
      case Retry
      then show ?thesis
        using Suc.prems a Inl Suc.IH by simp
    qed
  next
    case (Inr f)
    then show ?thesis
      using Suc.prems a Suc.IH by (cases f) auto
  qed
qed

lemma chat_loop_retries_n:
  "\<forall>k<n. \<forall>req. endpoint w (calls st + k) req = Inl OpenAIError \<Longrightarrow>
     chat_loop w chest maximum opts (n + fuel) st =
       chat_loop w chest maximum opts fuel
         (st\<lparr>calls := calls st + n,
             sleeps := sleeps st @ map (\<lambda>k. min (2 ^ Suc k * delay st) maximum) [0..<n],
             delay := delay st * 2 ^ n\<rparr>)"
proof (induction n arbitrary: st)
  case 0
  show ?case by simp
next
  case (Suc n)
  let ?st1 = "st\<lparr>calls := Suc (calls st),
                 sleeps := sleeps st @ [exponential_backoff maximum (delay st)],
                 delay := delay st * 2\<rparr>"
  have "0 < Suc n" by simp
  with Suc.prems have "\<forall>req. endpoint w (calls st + 0) req = Inl OpenAIError"
    by blast
  then have first: "endpoint w (calls st) (opts\<lparr>o_messages := messages st\<rparr>) = Inl OpenAIError"
    by simp
  have rest: "\<forall>k<n. \<forall>req. endpoint w (calls ?st1 + k) req = Inl OpenAIError"
  proof (intro allI impI)
    fix k req assume "k < n"
    then have "Suc k < Suc n" by simp
    with Suc.prems have "endpoint w (calls st + Suc k) req = Inl OpenAIError"
      by blast
    then show "endpoint w (calls ?st1 + k) req = Inl OpenAIError"
      by simp
  qed
  have shift: "map (\<lambda>k. min (2 ^ Suc k * delay st) maximum) [0..<Suc n] =
      exponential_backoff maximum (delay st) # map (\<lambda>k. min (2 ^ Suc k * (delay st * 2)) maximum) [0..<n]"
    by (simp add: upt_conv_Cons map_Suc_upt [symmetric] exponential_backoff_def mult.commute mult.left_commute del: upt_Suc)
  have eq: "?st1\<lparr>calls := calls ?st1 + n,
             sleeps := sleeps ?st1 @ map (\<lambda>k. min (2 ^ Suc k * delay ?st1) maximum) [0..<n],
             delay := delay ?st1 * 2 ^ n\<rparr> =
         st\<lparr>calls := calls st + Suc n,
             sleeps := sleeps st @ map (\<lambda>k. min (2 ^ Suc k * delay st) maximum) [0..<Suc n],
             delay := delay st * 2 ^ Suc n\<rparr>"
    unfolding shift by (simp add: mult.assoc)
  have step1: "chat_loop w chest maximum opts (Suc n + fuel) st = chat_loop w chest maximum opts (n + fuel) ?st1"
    using chat_loop_retries [OF first, of chest maximum "n + fuel"] by simp
  have step2: "chat_loop w chest maximum opts (n + fuel) ?st1 = chat_loop w chest maximum opts fuel
         (?st1\<lparr>calls := calls ?st1 + n,
             sleeps := sleeps ?st1 @ map (\<lambda>k. min (2 ^ Suc k * delay ?st1) maximum) [0..<n],
             delay := delay ?st1 * 2 ^ n\<rparr>)"
    by (rule Suc.IH [OF rest])
  from trans [OF step1 step2] show ?case
    unfolding eq .
qed

lemma chat_one_shot_without_prompt:
  "ck_messages kwargs = None \<Longrightarrow> ck_prompt kwargs = None \<Longrightarrow> prompt e = None
     \<Longrightarrow> chat_one_shot w chest e fuel kwargs = Some (Inl ValueError, e)"
  by (simp add: chat_one_shot_def)

lemma chat_one_shot_enters_loop:
  assumes "ck_messages kwargs = Some msgs" and "ck_model_name kwargs = None"
    and "1 \<le> concurrency_limit e" and "schemas e = None"
  shows "chat_one_shot w chest e fuel kwargs =
           map_option (\<lambda>(outcome, st). (outcome, e\<lparr>schemas := Some (collect_schemas chest)\<rparr>))
             (chat_loop w chest (max_delay e)
                \<lparr>o_model = model_name e, o_messages = msgs,
                 o_functions = (if collect_schemas chest \<noteq> [] then Some (collect_schemas chest)
                                else None)\<rparr>
                fuel (initial_state msgs))"
  using assms by (simp add: chat_one_shot_def functions_list_def)

subsection \<open>The claims on the dispatcher and the loop\<close>

text \<open>
  Claim C1. The delays slept after consecutive transient failures should be
  \<open>1, 2, 4, \<dots>\<close> seconds, capped at \<^verbatim>\<open>max_delay\<close>, and \<^verbatim>\<open>delay = 1\<close> is commented as
  the initial delay between retries. The code sleeps \<^verbatim>\<open>min(2 * delay, max_delay)\<close> and
  then doubles \<^verbatim>\<open>delay\<close> once more, so the delays are \<open>2, 4, 8, \<dots>\<close>
  (\<open>chat_loop_retries_n\<close>): with the default \<^verbatim>\<open>max_delay = 10\<close> and an endpoint that fails
  twice before it answers, the loop sleeps 2 and 4 seconds.
\<close>

theorem backoff_first_sleep_doubled:
  "chat_loop \<lparr>endpoint = scripted [Inl OpenAIError, Inl OpenAIError, answer ''ok'' 7],
              json_loads = loads_empty_object\<rparr>
     [] 10 plain_opts 3 (initial_state []) =
   Some (Inr \<lparr>text = ''ok'', token_count = 7\<rparr>,
         \<lparr>messages = [], delay = 4, calls = 3, sleeps = [2, 4], invoked = []\<rparr>)"
  by (simp add: numeral_3_eq_3 attempt_def scripted_def exponential_backoff_def str_strip_def
      is_space_def answer_def initial_state_def plain_opts_def)

text \<open>
  Claim C8. When the endpoint raises an invalid-request error, the loop returns it at once:
  one call, no sleep. When it raises a transient error, the loop sleeps, doubles the
  delay and goes on with the same messages; \<open>n\<close> transient failures in a row lead to
  \<open>n\<close> retries, for every \<open>n\<close>; and no run of the loop ends with a transient error.
  Any other error that the endpoint raises is returned at once.
\<close>

theorem dispatcher_error_policy:
  "(endpoint w (calls st) (opts\<lparr>o_messages := messages st\<rparr>) = Inl InvalidRequestError \<longrightarrow>
      chat_loop w chest maximum opts (Suc fuel) st =
        Some (Inl InvalidRequestError, st\<lparr>calls := Suc (calls st)\<rparr>))
   \<and> (endpoint w (calls st) (opts\<lparr>o_messages := messages st\<rparr>) = Inl OpenAIError \<longrightarrow>
      chat_loop w chest maximum opts (Suc fuel) st =
        chat_loop w chest maximum opts fuel
          (st\<lparr>calls := Suc (calls st),
              sleeps := sleeps st @ [exponential_backoff maximum (delay st)],
              delay := delay st * 2\<rparr>))
   \<and> ((\<forall>k<n. \<forall>req. endpoint w (calls st + k) req = Inl OpenAIError) \<longrightarrow>
      chat_loop w chest maximum opts (n + fuel) st =
        chat_loop w chest maximum opts fuel
          (st\<lparr>calls := calls st + n,
              sleeps := sleeps st @ map (\<lambda>k. min (2 ^ Suc k * delay st) maximum) [0..<n],
              delay := delay st * 2 ^ n\<rparr>))
   \<and> (chat_loop w chest maximum opts fuel st = Some (outcome, st') \<longrightarrow> outcome \<noteq> Inl OpenAIError)
   \<and> (endpoint w (calls st) (opts\<lparr>o_messages := messages st\<rparr>) = Inl e \<longrightarrow>
      e \<noteq> InvalidRequestError \<longrightarrow> e \<noteq> OpenAIError \<longrightarrow>
      chat_loop w chest maximum opts (Suc fuel) st = Some (Inl e, st\<lparr>calls := Suc (calls st)\<rparr>))"
proof (intro conjI impI)
  assume "endpoint w (calls st) (opts\<lparr>o_messages := messages st\<rparr>) = Inl InvalidRequestError"
  then show "chat_loop w chest maximum opts (Suc fuel) st =
        Some (Inl InvalidRequestError, st\<lparr>calls := Suc (calls st)\<rparr>)"
    by (rule chat_loop_propagates) simp
next
  assume "endpoint w (calls st) (opts\<lparr>o_messages := messages st\<rparr>) = Inl OpenAIError"
  then show "chat_loop w chest maximum opts (Suc fuel) st =
        chat_loop w chest maximum opts fuel
          (st\<lparr>calls := Suc (calls st),
              sleeps := sleeps st @ [exponential_backoff maximum (delay st)],
              delay := delay st * 2\<rparr>)"
    by (rule chat_loop_retries)
next
  assume "\<forall>k<n. \<forall>req. endpoint w (calls st + k) req = Inl OpenAIError"
  then show "chat_loop w chest maximum opts (n + fuel) st =
        chat_loop w chest maximum opts fuel
          (st\<lparr>calls := calls st + n,
              sleeps := sleeps st @ map (\<lambda>k. min (2 ^ Suc k * delay st) maximum) [0..<n],
              delay := delay st * 2 ^ n\<rparr>)"
    by (rule chat_loop_retries_n)
next
  assume "chat_loop w chest maximum opts fuel st = Some (outcome, st')"
  then show "outcome \<noteq> Inl OpenAIError"
    by (rule chat_loop_never_transient)
next
  assume "endpoint w (calls st) (opts\<lparr>o_messages := messages st\<rparr>) = Inl e" and "e \<noteq> OpenAIError"
  then show "chat_loop w chest maximum opts (Suc fuel) st = Some (Inl e, st\<lparr>calls := Suc (calls st)\<rparr>)"
    by (rule chat_loop_propagates)
qed

theorem dispatcher_error_policy_witness:
  "chat_loop \<lparr>endpoint = scripted [Inl InvalidRequestError, answer ''late'' 1],
              json_loads = loads_empty_object\<rparr>
     [] 5 plain_opts (Suc 0) (initial_state []) =
     Some (Inl InvalidRequestError,
           \<lparr>messages = [], delay = 1, calls = 1, sleeps = [], invoked = []\<rparr>)
   \<and> chat_loop \<lparr>endpoint = scripted [Inl OpenAIError, Inl OpenAIError, Inl OpenAIError,
                                     answer ''ok'' 7],
                json_loads = loads_empty_object\<rparr>
     [] 5 plain_opts (3 + 1) (initial_state []) =
     Some (Inr \<lparr>text = ''ok'', token_count = 7\<rparr>,
           \<lparr>messages = [], delay = 8, calls = 4, sleeps = [2, 4, 5], invoked = []\<rparr>)
   \<and> Inr \<lparr>text = ''ok'', token_count = 7\<rparr> \<noteq> (Inl OpenAIError :: exn + ChatResponse)
   \<and> chat_loop \<lparr>endpoint = scripted [Inl ValueError, answer ''late'' 1],
                json_loads = loads_empty_object\<rparr>
     [] 5 plain_opts (Suc 0) (initial_state []) =
     Some (Inl ValueError,
           \<lparr>messages = [], delay = 1, calls = 1, sleeps = [], invoked = []\<rparr>)"
proof -
  let ?wa = "\<lparr>endpoint = scripted [Inl InvalidRequestError, answer ''late'' 1],
              json_loads = loads_empty_object\<rparr>"
  let ?wb = "\<lparr>endpoint = scripted [Inl OpenAIError, Inl OpenAIError, Inl OpenAIError,
                                     answer ''ok'' 7],
                json_loads = loads_empty_object\<rparr>"
  let ?wc = "\<lparr>endpoint = scripted [Inl ValueError, answer ''late'' 1],
                json_loads = loads_empty_object\<rparr>"
  let ?s = "initial_state []"
  have a: "endpoint ?wa (calls ?s) (plain_opts\<lparr>o_messages := messages ?s\<rparr>) = Inl InvalidRequestError"
    by (simp add: scripted_def initial_state_def)
  have one: "chat_loop ?wa [] 5 plain_opts (Suc 0) ?s =
      Some (Inl InvalidRequestError, ?s\<lparr>calls := Suc (calls ?s)\<rparr>)"
    using dispatcher_error_policy [where w = ?wa and st = ?s and opts = plain_opts
        and chest = "[]" and maximum = 5 and fuel = 0] a
    by blast
  have b: "\<forall>k<3. \<forall>req. endpoint ?wb (calls ?s + k) req = Inl OpenAIError"
    by (simp add: scripted_def initial_state_def less_Suc_eq numeral_3_eq_3)
  have three: "chat_loop ?wb [] 5 plain_opts (3 + 1) ?s =
      chat_loop ?wb [] 5 plain_opts 1
          (?s\<lparr>calls := calls ?s + 3,
              sleeps := sleeps ?s @ map (\<lambda>k. min (2 ^ Suc k * delay ?s) 5) [0..<3],
              delay := delay ?s * 2 ^ 3\<rparr>)"
    using dispatcher_error_policy [where w = ?wb and st = ?s and opts = plain_opts
        and chest = "[]" and maximum = 5 and fuel = 1 and n = 3] b
    by blast
  have after: "chat_loop ?wb [] 5 plain_opts 1
          (?s\<lparr>calls := calls ?s + 3,
              sleeps := sleeps ?s @ map (\<lambda>k. min (2 ^ Suc k * delay ?s) 5) [0..<3],
              delay := delay ?s * 2 ^ 3\<rparr>) =
     Some (Inr \<lparr>text = ''ok'', token_count = 7\<rparr>,
           \<lparr>messages = [], delay = 8, calls = 4, sleeps = [2, 4, 5], invoked = []\<rparr>)"
    by (simp add: attempt_def scripted_def str_strip_def is_space_def answer_def
        initial_state_def plain_opts_def upt_rec numeral_3_eq_3)
  have c: "endpoint ?wc (calls ?s) (plain_opts\<lparr>o_messages := messages ?s\<rparr>) = Inl ValueError"
    by (simp add: scripted_def initial_state_def)
  have last: "chat_loop ?wc [] 5 plain_opts (Suc 0) ?s = Some (Inl ValueError, ?s\<lparr>calls := Suc (calls ?s)\<rparr>)"
    using dispatcher_error_policy [where w = ?wc and st = ?s and opts = plain_opts
        and chest = "[]" and maximum = 5 and fuel = 0 and e = ValueError] c
    by blast
  show ?thesis
    using one three after last by (simp add: initial_state_def)
qed

text \<open>
  Claim C9, as stated, fails on the content of the function message: the code stores what
  the capability returned as it is, with no conversion to a string (line 203). A
  capability that returns the number 42 leaves the number in the conversation.
\<close>

theorem tool_result_not_stringified_counterexample:
  "chat_loop \<lparr>endpoint = scripted [tool_call ''tools-count'' ''{}'' 3, answer ''done'' 5],
              json_loads = loads_empty_object\<rparr>
     count_tools 10 plain_opts (Suc (Suc 0)) (initial_state []) =
   Some (Inr \<lparr>text = ''done'', token_count = 5\<rparr>,
         \<lparr>messages =
            [\<lparr>m_role = Assistant, m_content = None, m_name = None,
              m_function_call = Some \<lparr>fc_name = ''tools-count'', fc_arguments = ''{}''\<rparr>\<rparr>,
             \<lparr>m_role = Function, m_content = Some (JNum 42), m_name = Some ''tools-count'',
              m_function_call = None\<rparr>],
          delay = 1, calls = 2, sleeps = [],
          invoked = [(''tools'', ''count'', [])]\<rparr>)
   \<and> JNum 42 \<noteq> JStr ''42''"
  by (simp add: attempt_def scripted_def tool_call_def answer_def loads_empty_object_def
      call_function_def call_target_def str_split_max_def count_tools_def decorated_def
      str_strip_def is_space_def initial_state_def plain_opts_def)

text \<open>
  Claim C9, amended. When the endpoint answers the next call with a tool call that names
  a method of an owner of the tool chest (neither name containing \<^verbatim>\<open>-\<close>), whose
  arguments decode to a dictionary and whose method returns on them, and answers the call
  after it with a plain content, the loop returns after these two calls: exactly that
  method was invoked, once, with the decoded dictionary as keyword arguments; two
  messages were appended, the tool-call message of the assistant and then the function
  message with the value that the method returned, as it is; the answer is the trimmed
  content with the completion tokens of the second response; nothing was slept.
\<close>

theorem tool_call_once_then_answer:
  assumes "endpoint w (calls st) (opts\<lparr>o_messages := messages st\<rparr>) =
             Inr \<lparr>r_message = m1, r_completion_tokens = t1\<rparr>"
    and "m_function_call m1 = Some \<lparr>fc_name = owner @ ''-'' @ bare, fc_arguments = arguments\<rparr>"
    and "json_loads w arguments = Inr (JObj kwargs)"
    and "map_of chest owner = Some obj"
    and "map_of (attrs obj) bare = Some (Method sch body)"
    and "CHR ''-'' \<notin> set owner" and "CHR ''-'' \<notin> set bare"
    and "body kwargs = Inr function_response"
    and "endpoint w (Suc (calls st))
           (opts\<lparr>o_messages := messages st @
              [m1, \<lparr>m_role = Function, m_content = Some function_response,
                    m_name = Some (owner @ ''-'' @ bare), m_function_call = None\<rparr>]\<rparr>) =
             Inr \<lparr>r_message = m2, r_completion_tokens = t2\<rparr>"
    and "m_function_call m2 = None"
    and "m_content m2 = Some (JStr content)"
  shows "chat_loop w chest maximum opts (Suc (Suc fuel)) st =
           Some (Inr \<lparr>text = str_strip content, token_count = t2\<rparr>,
                 st\<lparr>messages := messages st @
                       [m1, \<lparr>m_role = Function, m_content = Some function_response,
                             m_name = Some (owner @ ''-'' @ bare), m_function_call = None\<rparr>],
                     calls := calls st + 2,
                     invoked := invoked st @ [(owner, bare, kwargs)]\<rparr>)"
proof -
  let ?fm = "\<lparr>m_role = Function, m_content = Some function_response,
              m_name = Some (owner @ ''-'' @ bare), m_function_call = None\<rparr>"
  let ?st1 = "st\<lparr>calls := Suc (calls st),
                 invoked := invoked st @ [(owner, bare, kwargs)],
                 messages := messages st @ [m1, ?fm]\<rparr>"
  note call = invocable [OF assms(4-7), of kwargs]
  have first: "attempt w chest opts st = (Inr Again, ?st1)"
    using assms(1-3,8) call by (simp add: attempt_def)
  have second: "attempt w chest opts ?st1 =
      (Inr (Done \<lparr>text = str_strip content, token_count = t2\<rparr>), ?st1\<lparr>calls := Suc (calls ?st1)\<rparr>)"
    using assms(9-11) by (simp add: attempt_def)
  show ?thesis
    using first second by simp
qed

theorem tool_call_once_then_answer_witness:
  "chat_loop \<lparr>endpoint = scripted [tool_call ''tools-echo'' ''{}'' 3, answer '' done '' 5],
              json_loads = loads_empty_object\<rparr>
     echo_tools 10 plain_opts (Suc (Suc 0)) (initial_state []) =
   Some (Inr \<lparr>text = ''done'', token_count = 5\<rparr>,
         \<lparr>messages =
            [\<lparr>m_role = Assistant, m_content = None, m_name = None,
              m_function_call = Some \<lparr>fc_name = ''tools-echo'', fc_arguments = ''{}''\<rparr>\<rparr>,
             \<lparr>m_role = Function, m_content = Some (JStr ''pong''), m_name = Some ''tools-echo'',
              m_function_call = None\<rparr>],
          delay = 1, calls = 2, sleeps = [],
          invoked = [(''tools'', ''echo'', [])]\<rparr>)"
proof -
  let ?w = "\<lparr>endpoint = scripted [tool_call ''tools-echo'' ''{}'' 3, answer '' done '' 5],
              json_loads = loads_empty_object\<rparr>"
  let ?s = "initial_state []"
  let ?body = "\<lambda>kwargs :: (string \<times> json) list. (Inr (JStr ''pong'') :: exn + json)"
  let ?obj = "PyObject 1 [decorated ''Echo'' [] ''echo'' ?body]"
  let ?m1 = "\<lparr>m_role = Assistant, m_content = None, m_name = None,
              m_function_call = Some \<lparr>fc_name = ''tools'' @ ''-'' @ ''echo'', fc_arguments = ''{}''\<rparr>\<rparr>"
  let ?m2 = "\<lparr>m_role = Assistant, m_content = Some (JStr '' done ''), m_name = None,
              m_function_call = None\<rparr>"
  have h1: "endpoint ?w (calls ?s) (plain_opts\<lparr>o_messages := messages ?s\<rparr>) =
             Inr \<lparr>r_message = ?m1, r_completion_tokens = 3\<rparr>"
    by (simp add: scripted_def initial_state_def tool_call_def)
  have h2: "m_function_call ?m1 =
      Some \<lparr>fc_name = ''tools'' @ ''-'' @ ''echo'', fc_arguments = ''{}''\<rparr>"
    by simp
  have h3: "json_loads ?w ''{}'' = Inr (JObj [])"
    by (simp add: loads_empty_object_def)
  have h4: "map_of echo_tools ''tools'' = Some ?obj"
    by (simp add: echo_tools_def)
  have h5: "map_of (attrs ?obj) ''echo'' =
      Some (Method (Some (json_schema ''Echo'' [] ''echo'')) ?body)"
    by (simp add: decorated_def)
  have h6: "CHR ''-'' \<notin> set ''tools''" by simp
  have h7: "CHR ''-'' \<notin> set ''echo''" by simp
  have h8: "?body [] = Inr (JStr ''pong'')" by simp
  have h9: "endpoint ?w (Suc (calls ?s))
           (plain_opts\<lparr>o_messages := messages ?s @
              [?m1, \<lparr>m_role = Function, m_content = Some (JStr ''pong''),
                    m_name = Some (''tools'' @ ''-'' @ ''echo''), m_function_call = None\<rparr>]\<rparr>) =
             Inr \<lparr>r_message = ?m2, r_completion_tokens = 5\<rparr>"
    by (simp add: scripted_def initial_state_def answer_def)
  have h10: "m_function_call ?m2 = None" by simp
  have h11: "m_content ?m2 = Some (JStr '' done '')" by simp
  have strip: "str_strip '' done '' = ''done''"
    by (simp add: str_strip_def is_space_def)
  from tool_call_once_then_answer [OF h1 h2 h3 h4 h5 h6 h7 h8 h9 h10 h11, of 10 0]
  show ?thesis
    by (simp add: strip initial_state_def)
qed

section \<open>Properties of the task runner\<close>

lemma length_settle: "length (settle outcomes order slots) = length slots"
  by (induction order arbitrary: slots) simp_all

lemma settle_nth:
  "length slots = length outcomes \<Longrightarrow> i < length outcomes \<Longrightarrow>
     settle outcomes order slots ! i = (if i \<in> set order then Some (outcomes ! i) else slots ! i)"
proof (induction order arbitrary: slots)
  case Nil
  show ?case by simp
next
  case (Cons j order)
  let ?slots' = "if j < length outcomes then slots[j := Some (outcomes ! j)] else slots"
  have len: "length ?slots' = length outcomes"
    using Cons.prems(1) by simp
  have "settle outcomes (j # order) slots ! i =
          (if i \<in> set order then Some (outcomes ! i) else ?slots' ! i)"
    using Cons.IH [OF len Cons.prems(2)] by simp
  also have "\<dots> = (if i \<in> set (j # order) then Some (outcomes ! i) else slots ! i)"
    using Cons.prems by (auto simp: nth_list_update)
  finally show ?case .
qed

lemma those_map_Some: "those (map Some xs) = Some xs"
  by (induction xs) simp_all

lemma gather_all_settled:
  assumes "set order = {..<length outcomes}"
  shows "gather outcomes order = Some outcomes"
proof -
  let ?slots = "settle outcomes order (replicate (length outcomes) None)"
  have "?slots = map Some outcomes"
  proof (rule nth_equalityI)
    show "length ?slots = length (map Some outcomes)"
      by (simp add: length_settle)
  next
    fix i assume "i < length ?slots"
    then have i: "i < length outcomes"
      by (simp add: length_settle)
    then have "i \<in> set order"
      using assms by simp
    then show "?slots ! i = map Some outcomes ! i"
      using settle_nth [of "replicate (length outcomes) None" outcomes i order] i by simp
  qed
  then show ?thesis
    by (simp add: gather_def those_map_Some)
qed

lemma map_enumerate_nth:
  "map (\<lambda>(i, x). f i x) (enumerate 0 xs) = map (\<lambda>i. f i (xs ! i)) [0..<length xs]"
  by (rule nth_equalityI) (simp_all add: nth_enumerate_eq)

text \<open>
  Claim C5. On a list of \<open>n\<close> elements, whatever the order in which the \<open>n\<close>
  coroutines complete, \<^verbatim>\<open>arun\<close> returns a list of \<open>n\<close> results whose element at a
  position is the outcome of the coroutine created for the element of the input at that
  position, the \<^verbatim>\<open>ChatResponse\<close> it returned or the exception it raised: a failure
  takes its place in the list and nothing else changes.
\<close>

theorem arun_batch_aligned:
  "set order = {..<length items} \<Longrightarrow>
     arun chat order (Batch items) =
       Some (Inr (Many (map (\<lambda>i. chat i (input_text (items ! i))) [0..<length items])))"
proof -
  assume order: "set order = {..<length items}"
  let ?outcomes = "map (\<lambda>(i, item). chat i (input_text item)) (enumerate 0 items)"
  have eq: "?outcomes = map (\<lambda>i. chat i (input_text (items ! i))) [0..<length items]"
    by (rule map_enumerate_nth)
  have "set order = {..<length ?outcomes}"
    using order by simp
  then have "gather ?outcomes order = Some ?outcomes"
    by (rule gather_all_settled)
  then show ?thesis
    unfolding eq by (simp add: arun_def eq)
qed

theorem arun_batch_aligned_witness:
  "set [2, 0, 1] = {..<length [Str ''a'', Resp \<lparr>text = ''b'', token_count = 4\<rparr>, Str ''c'']}
   \<and> arun fails_on_b [2, 0, 1] (Batch [Str ''a'', Resp \<lparr>text = ''b'', token_count = 4\<rparr>, Str ''c'']) =
       Some (Inr (Many [Inr \<lparr>text = ''a'', token_count = 0\<rparr>, Inl InvalidRequestError,
                        Inr \<lparr>text = ''c'', token_count = 2\<rparr>]))"
proof -
  let ?items = "[Str ''a'', Resp \<lparr>text = ''b'', token_count = 4\<rparr>, Str ''c'']"
  have h: "set [2, 0, 1] = {..<length ?items}"
    by (auto simp: lessThan_def less_Suc_eq numeral_3_eq_3)
  have up: "[0..<length ?items] = [0, 1, 2]"
    by (simp add: upt_rec)
  from arun_batch_aligned [OF h, of fails_on_b] show ?thesis
    using h unfolding up by (simp add: fails_on_b_def)
qed

end
